theory Spec2Isabelle
  imports Main "HOL-Library.Word"
begin

section \<open>Buffer cache (kernel/bio.c)\<close>

text \<open>
  The C integer types of the kernel: \<open>uint\<close> is 32 bits wide, \<open>uint64\<close> 64 bits and
  \<open>uchar\<close> 8 bits; arithmetic on them wraps around.
\<close>

type_synonym uint = "32 word"
type_synonym uint64 = "64 word"
type_synonym uchar = "8 word"

text \<open>The two \<open>#define\<close>s of bio.c.\<close>

definition BUCKETSIZE :: nat where
  "BUCKETSIZE = 13"

definition BUFFERSIZE :: nat where
  "BUFFERSIZE = 7"

text \<open>
  Modelled from the spec: sleeplock.c is not among the sources. The exclusive (parking) lock
  of a buffer is free (\<open>None\<close>) or held by the process with the given pid. \<open>acquiresleep\<close>
  on a held lock suspends the caller until the lock is free (also when the caller itself is the
  holder), \<open>holdingsleep\<close> tells whether the calling process is the holder.
\<close>

type_synonym sleeplock = "nat option"

definition holdingsleep :: "nat \<Rightarrow> sleeplock \<Rightarrow> bool" where
  "holdingsleep pid lk = (lk = Some pid)"

text \<open>
  \<open>struct buf\<close>. buf.h is not among the sources; the fields are the ones bio.c uses:
  \<open>dev\<close>, \<open>blockno\<close>, \<open>refcnt\<close> and \<open>lastuse\<close> are \<open>uint\<close> (\<open>lastuse\<close> is compared
  with the \<open>uint least\<close> and assigned from the \<open>uint\<close> tick counter), \<open>valid\<close> is a flag
  that only ever holds 0 or 1, \<open>data\<close> is the block's payload.
\<close>

record buf =
  valid :: bool
  dev :: uint
  blockno :: uint
  lock :: sleeplock
  refcnt :: uint
  lastuse :: uint
  data :: "uchar list"

text \<open>
  A \<open>struct buf *\<close> into the cache is the pair of the bucket index and the index of the slot
  in the bucket's array \<open>buf[BUFFERSIZE]\<close>.
\<close>

type_synonym bufref = "nat \<times> nat"

text \<open>
  The state: \<open>bcachebucket[BUCKETSIZE].buf[BUFFERSIZE]\<close> is a fixed-size table, read at
  indices below the two bounds only. The bucket spin locks are taken and released within one
  call, every critical section is one atomic step here, and the locks carry no state.

  Modelled from the spec: the block transfer primitive \<open>virtio_disk_rw\<close> is not among the
  sources. The device is a table of blocks indexed by device and block number; \<open>ndisk_rw\<close>
  counts the transfers made so far.
\<close>

record kernel =
  bcachebucket :: "nat \<Rightarrow> nat \<Rightarrow> buf"
  disk :: "uint \<Rightarrow> uint \<Rightarrow> uchar list"
  ndisk_rw :: nat

definition buf_at :: "kernel \<Rightarrow> bufref \<Rightarrow> buf" where
  "buf_at s b = bcachebucket s (fst b) (snd b)"

definition buf_upd :: "bufref \<Rightarrow> (buf \<Rightarrow> buf) \<Rightarrow> kernel \<Rightarrow> kernel" where
  "buf_upd b f s =
     s\<lparr>bcachebucket :=
         (bcachebucket s)(fst b := (bcachebucket s (fst b))(snd b := f (bcachebucket s (fst b) (snd b))))\<rparr>"

text \<open>
  The outcome of a call: \<open>panic\<close> halts the kernel; a call that reaches \<open>acquiresleep\<close> on a
  held lock is parked there, with the state its critical section has left; otherwise the call
  returns.
\<close>

datatype 'a outcome = Panic string | Parked 'a | Returned 'a

fun outcome_of :: "'a outcome \<Rightarrow> 'a option" where
  "outcome_of (Panic m) = None"
| "outcome_of (Parked x) = Some x"
| "outcome_of (Returned x) = Some x"

subsection \<open>binit\<close>

text \<open>
  Objects with static storage duration start zeroed in C: before \<open>binit\<close> every field of
  every buffer is 0. BSIZE (fs.h, not among the sources) is the length of the payload.
\<close>

definition buf_static :: "nat \<Rightarrow> buf" where
  "buf_static BSIZE =
     \<lparr>valid = False, dev = 0, blockno = 0, lock = None, refcnt = 0, lastuse = 0,
      data = replicate BSIZE 0\<rparr>"

definition kernel_static :: "nat \<Rightarrow> (uint \<Rightarrow> uint \<Rightarrow> uchar list) \<Rightarrow> kernel" where
  "kernel_static BSIZE d =
     \<lparr>bcachebucket = (\<lambda>i j. buf_static BSIZE), disk = d, ndisk_rw = 0\<rparr>"

definition binit_buf :: "buf \<Rightarrow> buf" where
  "binit_buf b = b\<lparr>lock := None, lastuse := 0, refcnt := 0\<rparr>"

definition binit :: "kernel \<Rightarrow> kernel" where
  "binit s =
     fold (\<lambda>i s. fold (\<lambda>j s. buf_upd (i, j) binit_buf s) [0..<BUFFERSIZE] s) [0..<BUCKETSIZE] s"

subsection \<open>bget\<close>

text \<open>The first loop of \<open>bget\<close>: the index of the first slot that caches the block.\<close>

function cached_loop :: "(nat \<Rightarrow> buf) \<Rightarrow> uint \<Rightarrow> uint \<Rightarrow> nat \<Rightarrow> nat option" where
  "cached_loop bk d bn i =
     (if i < BUFFERSIZE
      then (if dev (bk i) = d \<and> blockno (bk i) = bn then Some i
            else cached_loop bk d bn (Suc i))
      else None)"
  by pat_completeness auto
termination
  by (relation "measure (\<lambda>(bk, d, bn, i). BUFFERSIZE - i)") auto

declare cached_loop.simps [simp del]

text \<open>The second loop: \<open>least\<close> and \<open>least_idx\<close> after the slots from \<open>i\<close> on.\<close>

function lru_loop :: "(nat \<Rightarrow> buf) \<Rightarrow> nat \<Rightarrow> uint \<Rightarrow> int \<Rightarrow> uint \<times> int" where
  "lru_loop bk i least least_idx =
     (if i < BUFFERSIZE
      then (if refcnt (bk i) = 0 \<and> lastuse (bk i) < least
            then lru_loop bk (Suc i) (lastuse (bk i)) (int i)
            else lru_loop bk (Suc i) least least_idx)
      else (least, least_idx))"
  by pat_completeness auto
termination
  by (relation "measure (\<lambda>(bk, i, least, least_idx). BUFFERSIZE - i)") auto

declare lru_loop.simps [simp del]

text \<open>
  What the second loop of \<open>bget\<close> looks for, in words: slot \<open>j\<close> is unreferenced with a last
  use below the bound, and slot \<open>k\<close> is at least as old as every unreferenced slot from \<open>n\<close>
  on, with the lowest index among those of equal age.
\<close>

definition lru_free :: "(nat \<Rightarrow> buf) \<Rightarrow> uint \<Rightarrow> nat \<Rightarrow> bool" where
  "lru_free bk least j = (refcnt (bk j) = 0 \<and> lastuse (bk j) < least)"

definition lru_best :: "(nat \<Rightarrow> buf) \<Rightarrow> nat \<Rightarrow> nat \<Rightarrow> bool" where
  "lru_best bk n k =
     (\<forall>j. n \<le> j \<and> j < BUFFERSIZE \<and> refcnt (bk j) = 0 \<longrightarrow>
          lastuse (bk k) \<le> lastuse (bk j) \<and> (lastuse (bk j) = lastuse (bk k) \<longrightarrow> k \<le> j))"

text \<open>
  \<open>acquiresleep(&b->lock)\<close> at the end of \<open>bget\<close>, after the bucket lock has been released.
\<close>

definition acquiresleep :: "nat \<Rightarrow> bufref \<Rightarrow> kernel \<Rightarrow> (kernel \<times> bufref) outcome" where
  "acquiresleep pid b s =
     (case lock (buf_at s b) of
        None \<Rightarrow> Returned (buf_upd b (\<lambda>x. x\<lparr>lock := Some pid\<rparr>) s, b)
      | Some holder \<Rightarrow> Parked (s, b))"

text \<open>
  \<open>bget(dev, blockno)\<close> called by process \<open>pid\<close> when the global tick counter reads \<open>ticks\<close>.
\<close>

definition bget :: "nat \<Rightarrow> uint \<Rightarrow> uint \<Rightarrow> uint \<Rightarrow> kernel \<Rightarrow> (kernel \<times> bufref) outcome" where
  "bget pid d bn ticks s =
     (let p = unat bn mod BUCKETSIZE in
      case cached_loop (bcachebucket s p) d bn 0 of
        Some i \<Rightarrow>
          acquiresleep pid (p, i)
            (buf_upd (p, i) (\<lambda>b. b\<lparr>refcnt := refcnt b + 1, lastuse := ticks\<rparr>) s)
      | None \<Rightarrow>
          (case lru_loop (bcachebucket s p) 0 0xffffffff (- 1) of
             (least, least_idx) \<Rightarrow>
               if least_idx = - 1 then Panic ''do not have enough free buffer''
               else acquiresleep pid (p, nat least_idx)
                      (buf_upd (p, nat least_idx)
                         (\<lambda>b. b\<lparr>dev := d, blockno := bn, lastuse := ticks, valid := False,
                                 refcnt := 1\<rparr>) s)))"

text \<open>A parked caller resumes once the lock is free, and takes it.\<close>

definition bget_wake :: "nat \<Rightarrow> bufref \<Rightarrow> kernel \<Rightarrow> kernel option" where
  "bget_wake pid b s =
     (case lock (buf_at s b) of
        None \<Rightarrow> Some (buf_upd b (\<lambda>x. x\<lparr>lock := Some pid\<rparr>) s)
      | Some holder \<Rightarrow> None)"

subsection \<open>bread, bwrite, brelse, bpin, bunpin\<close>

definition virtio_disk_rw :: "bufref \<Rightarrow> bool \<Rightarrow> kernel \<Rightarrow> kernel" where
  "virtio_disk_rw b w s =
     (let x = buf_at s b in
      if w
      then s\<lparr>disk := (disk s)(dev x := (disk s (dev x))(blockno x := data x)),
             ndisk_rw := Suc (ndisk_rw s)\<rparr>
      else (buf_upd b (\<lambda>y. y\<lparr>data := disk s (dev x) (blockno x)\<rparr>) s)
             \<lparr>ndisk_rw := Suc (ndisk_rw s)\<rparr>)"

text \<open>The part of \<open>bread\<close> after \<open>bget\<close> has returned the locked buffer.\<close>

definition bread_fill :: "bufref \<Rightarrow> kernel \<Rightarrow> kernel" where
  "bread_fill b s =
     (if \<not> valid (buf_at s b)
      then buf_upd b (\<lambda>x. x\<lparr>valid := True\<rparr>) (virtio_disk_rw b False s)
      else s)"

definition bread :: "nat \<Rightarrow> uint \<Rightarrow> uint \<Rightarrow> uint \<Rightarrow> kernel \<Rightarrow> (kernel \<times> bufref) outcome" where
  "bread pid d bn ticks s =
     (case bget pid d bn ticks s of
        Panic m \<Rightarrow> Panic m
      | Parked x \<Rightarrow> Parked x
      | Returned (s', b) \<Rightarrow> Returned (bread_fill b s', b))"

definition bread_wake :: "nat \<Rightarrow> bufref \<Rightarrow> kernel \<Rightarrow> kernel option" where
  "bread_wake pid b s = map_option (bread_fill b) (bget_wake pid b s)"

definition bwrite :: "nat \<Rightarrow> bufref \<Rightarrow> kernel \<Rightarrow> kernel outcome" where
  "bwrite pid b s =
     (if \<not> holdingsleep pid (lock (buf_at s b)) then Panic ''bwrite''
      else Returned (virtio_disk_rw b True s))"

definition brelse :: "nat \<Rightarrow> bufref \<Rightarrow> kernel \<Rightarrow> kernel outcome" where
  "brelse pid b s =
     (if \<not> holdingsleep pid (lock (buf_at s b)) then Panic ''brelse''
      else Returned (buf_upd b (\<lambda>x. x\<lparr>lock := None\<rparr>)
                      (buf_upd b (\<lambda>x. x\<lparr>refcnt := refcnt x - 1\<rparr>) s)))"

definition bpin :: "bufref \<Rightarrow> kernel \<Rightarrow> kernel" where
  "bpin b s = buf_upd b (\<lambda>x. x\<lparr>refcnt := refcnt x + 1\<rparr>) s"

definition bunpin :: "bufref \<Rightarrow> kernel \<Rightarrow> kernel" where
  "bunpin b s = buf_upd b (\<lambda>x. x\<lparr>refcnt := refcnt x - 1\<rparr>) s"

section \<open>Physical page allocator (kernel/kalloc.c)\<close>

text \<open>
  The allocator hands out whole 4096-byte pages (riscv.h, with \<open>PGSIZE\<close>, is not among the
  sources; the value is the one the header comment of kalloc.c gives). param.h is not among
  the sources either: \<open>NCPU\<close> is the length of the table \<open>kmem_cpus\<close> of lock names, one for
  each processor. The bounds of the managed range, the linker symbol \<open>end\<close> and \<open>PHYSTOP\<close>
  (memlayout.h), are parameters \<open>kend\<close> and \<open>phystop\<close> of the functions that read them.
\<close>

definition PGSIZE :: uint64 where
  "PGSIZE = 4096"

definition NCPU :: nat where
  "NCPU = 8"

text \<open>
  The state: \<open>kmem c\<close> is \<open>kmem[c].freelist\<close>, a pointer to a \<open>struct run\<close> with 0 the null
  pointer, and \<open>run_next a\<close> is the field \<open>next\<close> of the \<open>struct run\<close> at address \<open>a\<close>, that
  is, the first eight bytes of the page at \<open>a\<close>. The free lists live in the free pages
  themselves, so that writing to a page changes the list that runs through it. The other
  bytes of a page are never read by the allocator and are not part of the state. The pool
  spin locks are taken and released within one call and carry no state.
\<close>

record allocator =
  kmem :: "nat \<Rightarrow> uint64"
  run_next :: "uint64 \<Rightarrow> uint64"

text \<open>
  \<open>memset(pa, c, PGSIZE)\<close> as far as the allocator can see it: the \<open>next\<close> field at \<open>pa\<close>
  now holds eight bytes \<open>c\<close>. The pages on the free lists are page-aligned (\<open>kfree\<close> checks
  it before a page goes on a list), and so is the page that is filled: the fill reaches the
  \<open>next\<close> field of no other page.
\<close>

definition memset_page :: "uint64 \<Rightarrow> uchar \<Rightarrow> allocator \<Rightarrow> allocator" where
  "memset_page pa c s = s\<lparr>run_next := (run_next s)(pa := 0x0101010101010101 * ucast c)\<rparr>"

text \<open>\<open>kfree(pa)\<close> on processor \<open>cpu\<close> (the value of \<open>cpuid()\<close>).\<close>

definition kfree :: "uint64 \<Rightarrow> uint64 \<Rightarrow> nat \<Rightarrow> uint64 \<Rightarrow> allocator \<Rightarrow> allocator outcome" where
  "kfree kend phystop cpu pa s =
     (if pa mod PGSIZE \<noteq> 0 \<or> pa < kend \<or> pa \<ge> phystop then Panic ''kfree''
      else
        let s1 = memset_page pa 1 s;
            s2 = s1\<lparr>run_next := (run_next s1)(pa := kmem s1 cpu)\<rparr>
        in Returned (s2\<lparr>kmem := (kmem s2)(cpu := pa)\<rparr>))"

text \<open>
  The stealing loop of \<open>kalloc\<close>, from \<open>i\<close> on: the page taken (0 if none) and the state.
\<close>

function steal_loop :: "nat \<Rightarrow> nat \<Rightarrow> allocator \<Rightarrow> uint64 \<times> allocator" where
  "steal_loop cpu i s =
     (if i < NCPU
      then (let next_cpu = (cpu + i) mod NCPU;
                r = kmem s next_cpu
            in if r \<noteq> 0
               then (r, s\<lparr>kmem := (kmem s)(next_cpu := run_next s r)\<rparr>)
               else steal_loop cpu (Suc i) s)
      else (0, s))"
  by pat_completeness auto
termination
  by (relation "measure (\<lambda>(cpu, i, s). NCPU - i)") auto

declare steal_loop.simps [simp del]

text \<open>\<open>kalloc()\<close> on processor \<open>cpu\<close>: the pointer returned (0 for no memory) and the state.\<close>

definition kalloc :: "nat \<Rightarrow> allocator \<Rightarrow> uint64 \<times> allocator" where
  "kalloc cpu s =
     (let r = kmem s cpu;
          s1 = (if r \<noteq> 0 then s\<lparr>kmem := (kmem s)(cpu := run_next s r)\<rparr> else s);
          (r, s2) = (if r = 0 then steal_loop cpu 1 s1 else (r, s1))
      in if r \<noteq> 0 then (r, memset_page r 5 s2) else (r, s2))"

subsection \<open>Free lists in memory\<close>

text \<open>
  \<open>islist nxt h xs\<close>: following \<open>next\<close> from the head \<open>h\<close> visits exactly the pages \<open>xs\<close>
  and then reaches the null pointer.
\<close>

primrec islist :: "(uint64 \<Rightarrow> uint64) \<Rightarrow> uint64 \<Rightarrow> uint64 list \<Rightarrow> bool" where
  "islist nxt h [] = (h = 0)"
| "islist nxt h (x # xs) = (h = x \<and> x \<noteq> 0 \<and> islist nxt (nxt x) xs)"

text \<open>\<open>on_freelist nxt h pa\<close>: the page \<open>pa\<close> is met when following \<open>next\<close> from \<open>h\<close>.\<close>

inductive on_freelist :: "(uint64 \<Rightarrow> uint64) \<Rightarrow> uint64 \<Rightarrow> uint64 \<Rightarrow> bool" for nxt where
  here: "h \<noteq> 0 \<Longrightarrow> on_freelist nxt h h"
| there: "h \<noteq> 0 \<Longrightarrow> on_freelist nxt (nxt h) pa \<Longrightarrow> on_freelist nxt h pa"

definition is_free :: "allocator \<Rightarrow> uint64 \<Rightarrow> bool" where
  "is_free s pa = (\<exists>c<NCPU. on_freelist (run_next s) (kmem s c) pa)"

text \<open>
  What the rest of the kernel does with the allocator and its pages. A caller frees a page it
  owns, one that is on no free list (kfree: "which normally should have been returned by a
  call to kalloc()"; at boot, \<open>freerange\<close> frees every page of the range once). And a caller
  stores into the pages it owns: \<open>Kstore a v\<close> is an eight-byte store of \<open>v\<close> at an address
  \<open>a\<close> inside a page that is not free.
\<close>

datatype kop = Kalloc nat | Kfree nat uint64 | Kstore uint64 uint64

inductive kstep :: "uint64 \<Rightarrow> uint64 \<Rightarrow> allocator \<Rightarrow> kop \<Rightarrow> allocator \<Rightarrow> bool"
  for kend phystop where
  alloc: "cpu < NCPU \<Longrightarrow> kalloc cpu s = (r, s') \<Longrightarrow> kstep kend phystop s (Kalloc cpu) s'"
| free: "cpu < NCPU \<Longrightarrow> \<not> is_free s pa \<Longrightarrow> kfree kend phystop cpu pa s = Returned s' \<Longrightarrow>
         kstep kend phystop s (Kfree cpu pa) s'"
| store: "p mod PGSIZE = 0 \<Longrightarrow> \<not> is_free s p \<Longrightarrow> a - p \<le> PGSIZE - 8 \<Longrightarrow>
          kstep kend phystop s (Kstore a v) (s\<lparr>run_next := (run_next s)(a := v)\<rparr>)"

inductive ksteps :: "uint64 \<Rightarrow> uint64 \<Rightarrow> allocator \<Rightarrow> kop list \<Rightarrow> allocator \<Rightarrow> bool"
  for kend phystop where
  nil: "ksteps kend phystop s [] s"
| snoc: "ksteps kend phystop s ops s' \<Longrightarrow> kstep kend phystop s' a s'' \<Longrightarrow>
         ksteps kend phystop s (ops @ [a]) s''"

text \<open>
  The reachable states: the free lists are all empty in the zeroed static storage the kernel
  starts with, whatever the memory holds.
\<close>

definition kreach :: "uint64 \<Rightarrow> uint64 \<Rightarrow> allocator \<Rightarrow> bool" where
  "kreach kend phystop s =
     (\<exists>s0 ops. (\<forall>c. kmem s0 c = 0) \<and> ksteps kend phystop s0 ops s)"

section \<open>Reachable states of the buffer cache\<close>

definition in_cache :: "bufref \<Rightarrow> bool" where
  "in_cache b = (fst b < BUCKETSIZE \<and> snd b < BUFFERSIZE)"

inductive breach :: "kernel \<Rightarrow> bool" where
  init: "breach (binit (kernel_static BSIZE d))"
| bget: "breach s \<Longrightarrow> outcome_of (bget pid dv bn ticks s) = Some (s', b) \<Longrightarrow> breach s'"
| bget_wake: "breach s \<Longrightarrow> in_cache b \<Longrightarrow> bget_wake pid b s = Some s' \<Longrightarrow> breach s'"
| bread: "breach s \<Longrightarrow> outcome_of (bread pid dv bn ticks s) = Some (s', b) \<Longrightarrow> breach s'"
| bread_wake: "breach s \<Longrightarrow> in_cache b \<Longrightarrow> bread_wake pid b s = Some s' \<Longrightarrow> breach s'"
| bwrite: "breach s \<Longrightarrow> in_cache b \<Longrightarrow> bwrite pid b s = Returned s' \<Longrightarrow> breach s'"
| brelse: "breach s \<Longrightarrow> in_cache b \<Longrightarrow> brelse pid b s = Returned s' \<Longrightarrow> breach s'"
| bpin: "breach s \<Longrightarrow> in_cache b \<Longrightarrow> breach (bpin b s)"
| bunpin: "breach s \<Longrightarrow> in_cache b \<Longrightarrow> breach (bunpin b s)"

text \<open>A small state of the cache, and the state after a miss in it, to run the theorems on.\<close>

definition example_cache :: kernel where
  "example_cache =
     buf_upd (0, 0) (\<lambda>b. b\<lparr>lastuse := 9\<rparr>)
       (buf_upd (0, 1) (\<lambda>b. b\<lparr>refcnt := 1\<rparr>) (kernel_static 0 (\<lambda>dv bn. [])))"

definition example_recycled :: kernel where
  "example_recycled =
     buf_upd (0, 2) (\<lambda>x. x\<lparr>lock := Some 7\<rparr>)
       (buf_upd (0, 2)
          (\<lambda>b. b\<lparr>dev := 1, blockno := 13, lastuse := 5, valid := False, refcnt := 1\<rparr>)
          example_cache)"

text \<open>
  Bucket 0 with every slot used before: the last uses are 9, 4, 7, 4, 8, 4, 5, and slot 1 is
  referenced.
\<close>

definition example_used :: kernel where
  "example_used =
     (kernel_static 0 (\<lambda>dv bn. []))
       \<lparr>bcachebucket :=
          \<lambda>p i. (buf_static 0)
                  \<lparr>dev := 2, blockno := 13 * of_nat i,
                   refcnt := (if i = 1 then 1 else 0),
                   lastuse := (if i < 7 then [9, 4, 7, 4, 8, 4, 5] ! i else 0)\<rparr>\<rparr>"

subsection \<open>Scenario A\<close>

text \<open>
  One process gets the given blocks of one device one after the other, all at the same tick,
  and releases none; the state after the last one, if every call has returned.
\<close>

fun bget_all :: "nat \<Rightarrow> uint \<Rightarrow> uint \<Rightarrow> uint list \<Rightarrow> kernel \<Rightarrow> kernel option" where
  "bget_all pid d ticks [] s = Some s"
| "bget_all pid d ticks (bn # bns) s =
     (case bget pid d bn ticks s of
        Returned (s', b) \<Rightarrow> bget_all pid d ticks bns s'
      | _ \<Rightarrow> None)"

text \<open>
  Scenario A at tick \<open>ticks\<close>, from the initialised cache: process 1 gets the seven blocks
  13, 26, ..., 91 of device 1, which all belong to bucket 0, then asks for block 104 of the
  same bucket, releases the buffer of block 13 (slot 0 of the bucket) and asks for block 104
  again. The result is the outcome of the two requests for block 104.
\<close>

definition scenario_A ::
  "uint \<Rightarrow> ((kernel \<times> bufref) outcome \<times> (kernel \<times> bufref) outcome) option" where
  "scenario_A ticks =
     (case bget_all 1 1 ticks [13, 26, 39, 52, 65, 78, 91] (binit (kernel_static 0 (\<lambda>dv bn. []))) of
        None \<Rightarrow> None
      | Some s7 \<Rightarrow>
          (case brelse 1 (0, 0) s7 of
             Returned s8 \<Rightarrow> Some (bget 1 1 104 ticks s7, bget 1 1 104 ticks s8)
           | _ \<Rightarrow> None))"

text \<open>
  A slot released at the last tick: at tick \<open>0xffffffff\<close>, from the initialised cache,
  process 1 gets the seven blocks 13, 26, ..., 91 of device 1 (bucket 0) and releases the
  buffer of block 52 (slot 3 of the bucket); then, at tick \<open>ticks\<close>, it asks for block 104
  of the same bucket. The result is the reference count and the last use of slot 3 after the
  release, and the outcome of the request.
\<close>

definition scenario_max_lastuse ::
  "uint \<Rightarrow> (uint \<times> uint \<times> (kernel \<times> bufref) outcome) option" where
  "scenario_max_lastuse ticks =
     (case bget_all 1 1 0xffffffff [13, 26, 39, 52, 65, 78, 91]
             (binit (kernel_static 0 (\<lambda>dv bn. []))) of
        None \<Rightarrow> None
      | Some s7 \<Rightarrow>
          (case brelse 1 (0, 3) s7 of
             Returned s8 \<Rightarrow>
               Some (refcnt (buf_at s8 (0, 3)), lastuse (buf_at s8 (0, 3)), bget 1 1 104 ticks s8)
           | _ \<Rightarrow> None))"

text \<open>
  The identity of a slot, and the invariant behind the uniqueness of identities: a slot
  carries (0, 0), as every slot does from the start, or it lies in the bucket of its block
  number and is the only slot of that bucket with its identity.
\<close>

definition ident :: "kernel \<Rightarrow> bufref \<Rightarrow> uint \<times> uint" where
  "ident s b = (dev (buf_at s b), blockno (buf_at s b))"

definition ident_inv :: "kernel \<Rightarrow> bool" where
  "ident_inv s =
     (\<forall>b. in_cache b \<longrightarrow>
        ident s b = (0, 0) \<or>
        (unat (snd (ident s b)) mod BUCKETSIZE = fst b \<and>
         (\<forall>j<BUFFERSIZE. ident s (fst b, j) = ident s b \<longrightarrow> j = snd b)))"

definition example_first :: kernel where
  "example_first =
     buf_upd (0, 0) (\<lambda>x. x\<lparr>lock := Some 7\<rparr>)
       (buf_upd (0, 0)
          (\<lambda>b. b\<lparr>dev := 1, blockno := 13, lastuse := 5, valid := False, refcnt := 1\<rparr>)
          (binit (kernel_static 0 (\<lambda>dv bn. []))))"

text \<open>A page popped from pool \<open>v\<close> and filled, as \<open>kalloc\<close> does on either path.\<close>

definition pop_page :: "nat \<Rightarrow> allocator \<Rightarrow> uint64 \<times> allocator" where
  "pop_page v s =
     (kmem s v, memset_page (kmem s v) 5 (s\<lparr>kmem := (kmem s)(v := run_next s (kmem s v))\<rparr>))"

text \<open>
  Scenario C: the pool of processor 0 holds the two pages \<open>0x87fff000\<close> and \<open>0x87ffe000\<close>,
  every other pool is empty (the state after \<open>kfree(0x87ffe000)\<close> and \<open>kfree(0x87fff000)\<close> on
  processor 0, from empty pools).
\<close>

definition example_pools :: allocator where
  "example_pools =
     \<lparr>kmem = (\<lambda>c. 0)(0 := 0x87fff000),
      run_next = (\<lambda>a. 0)(0x87ffe000 := 0, 0x87fff000 := 0x87ffe000)\<rparr>"

definition empty_pools :: allocator where
  "empty_pools = \<lparr>kmem = (\<lambda>c. 0), run_next = (\<lambda>a. 0)\<rparr>"

subsection \<open>The invariant of the pools\<close>

text \<open>
  A page of the managed range, as \<open>kfree\<close> checks it, and the invariant of the allocator:
  every pool is a null-terminated list of such pages, and no page is on two lists, or twice
  on one.
\<close>

definition page_ok :: "uint64 \<Rightarrow> uint64 \<Rightarrow> uint64 \<Rightarrow> bool" where
  "page_ok kend phystop pa = (pa mod PGSIZE = 0 \<and> kend \<le> pa \<and> pa < phystop)"

definition pools_inv :: "uint64 \<Rightarrow> uint64 \<Rightarrow> allocator \<Rightarrow> (nat \<Rightarrow> uint64 list) \<Rightarrow> bool" where
  "pools_inv kend phystop s L =
     ((\<forall>c<NCPU. islist (run_next s) (kmem s c) (L c)) \<and>
      (\<forall>c<NCPU. distinct (L c)) \<and>
      (\<forall>c<NCPU. \<forall>c'<NCPU. c \<noteq> c' \<longrightarrow> set (L c) \<inter> set (L c') = {}) \<and>
      (\<forall>c<NCPU. \<forall>pa\<in>set (L c). page_ok kend phystop pa))"

section \<open>Basic facts\<close>

lemma buf_at_buf_upd:
  "buf_at (buf_upd b f s) c = (if c = b then f (buf_at s b) else buf_at s c)"
  by (cases b; cases c) (simp add: buf_at_def buf_upd_def)

lemma cached_loop_None:
  "cached_loop bk d bn i = None \<longleftrightarrow>
     (\<forall>j. i \<le> j \<and> j < BUFFERSIZE \<longrightarrow> \<not> (dev (bk j) = d \<and> blockno (bk j) = bn))"
proof (induction bk d bn i rule: cached_loop.induct)
  case (1 bk d bn i)
  show ?case
  proof (cases "i < BUFFERSIZE")
    case False
    then show ?thesis by (auto simp: cached_loop.simps [of bk d bn i])
  next
    case True
    show ?thesis
    proof (cases "dev (bk i) = d \<and> blockno (bk i) = bn")
      case True
      with \<open>i < BUFFERSIZE\<close> show ?thesis
        by (auto simp: cached_loop.simps [of bk d bn i])
    next
      case False
      have "(\<forall>j. i \<le> j \<and> j < BUFFERSIZE \<longrightarrow> \<not> (dev (bk j) = d \<and> blockno (bk j) = bn)) \<longleftrightarrow>
            (\<forall>j. Suc i \<le> j \<and> j < BUFFERSIZE \<longrightarrow> \<not> (dev (bk j) = d \<and> blockno (bk j) = bn))"
        using False by (metis Suc_leD Suc_leI le_neq_implies_less)
      moreover have "cached_loop bk d bn i = cached_loop bk d bn (Suc i)"
        using True False by (subst cached_loop.simps) auto
      ultimately show ?thesis using "1.IH" [OF True False] by simp
    qed
  qed
qed

lemma cached_loop_Some:
  "cached_loop bk d bn i = Some k \<longleftrightarrow>
     i \<le> k \<and> k < BUFFERSIZE \<and> dev (bk k) = d \<and> blockno (bk k) = bn \<and>
     (\<forall>j. i \<le> j \<and> j < k \<longrightarrow> \<not> (dev (bk j) = d \<and> blockno (bk j) = bn))"
proof (induction bk d bn i rule: cached_loop.induct)
  case (1 bk d bn i)
  show ?case
  proof (cases "i < BUFFERSIZE")
    case False
    then show ?thesis by (auto simp: cached_loop.simps [of bk d bn i])
  next
    case True
    show ?thesis
    proof (cases "dev (bk i) = d \<and> blockno (bk i) = bn")
      case True
      with \<open>i < BUFFERSIZE\<close> show ?thesis
        by (auto simp: cached_loop.simps [of bk d bn i] dest: le_neq_implies_less)
    next
      case False
      have "cached_loop bk d bn i = cached_loop bk d bn (Suc i)"
        using True False by (subst cached_loop.simps) auto
      moreover have "(i \<le> k \<and> k < BUFFERSIZE \<and> dev (bk k) = d \<and> blockno (bk k) = bn \<and>
           (\<forall>j. i \<le> j \<and> j < k \<longrightarrow> \<not> (dev (bk j) = d \<and> blockno (bk j) = bn))) \<longleftrightarrow>
          (Suc i \<le> k \<and> k < BUFFERSIZE \<and> dev (bk k) = d \<and> blockno (bk k) = bn \<and>
           (\<forall>j. Suc i \<le> j \<and> j < k \<longrightarrow> \<not> (dev (bk j) = d \<and> blockno (bk j) = bn)))"
        using False by (metis Suc_leD Suc_leI le_neq_implies_less)
      ultimately show ?thesis using "1.IH" [OF True False] by simp
    qed
  qed
qed

lemma lru_loop_inv:
  "lru_loop bk n least idx = (l', idx') \<Longrightarrow>
     (idx' = idx \<and> l' = least \<and> (\<forall>j. n \<le> j \<and> j < BUFFERSIZE \<longrightarrow> \<not> lru_free bk least j)) \<or>
     (\<exists>k. n \<le> k \<and> k < BUFFERSIZE \<and> idx' = int k \<and> l' = lastuse (bk k) \<and>
          lru_free bk least k \<and> lru_best bk n k)"
proof (induction bk n least idx rule: lru_loop.induct)
  case (1 bk i least least_idx)
  show ?case
  proof (cases "i < BUFFERSIZE")
    case False
    with "1.prems" show ?thesis
      by (auto simp: lru_loop.simps [of bk i least least_idx])
  next
    case lt: True
    show ?thesis
    proof (cases "refcnt (bk i) = 0 \<and> lastuse (bk i) < least")
      case True
      then have fi: "lru_free bk least i" by (simp add: lru_free_def)
      have "lru_loop bk (Suc i) (lastuse (bk i)) (int i) = (l', idx')"
        using "1.prems" lt True by (subst (asm) lru_loop.simps) auto
      from "1.IH"(1) [OF lt True this]
      consider (same) "idx' = int i" "l' = lastuse (bk i)"
          "\<forall>j. Suc i \<le> j \<and> j < BUFFERSIZE \<longrightarrow> \<not> lru_free bk (lastuse (bk i)) j"
        | (later) k where "Suc i \<le> k" "k < BUFFERSIZE" "idx' = int k" "l' = lastuse (bk k)"
          "lru_free bk (lastuse (bk i)) k" "lru_best bk (Suc i) k"
        by blast
      then show ?thesis
      proof cases
        case same
        have "lru_best bk i i"
          unfolding lru_best_def
        proof (intro allI impI)
          fix j assume j: "i \<le> j \<and> j < BUFFERSIZE \<and> refcnt (bk j) = 0"
          show "lastuse (bk i) \<le> lastuse (bk j) \<and> (lastuse (bk j) = lastuse (bk i) \<longrightarrow> i \<le> j)"
          proof (cases "j = i")
            case True then show ?thesis by simp
          next
            case False
            with j have "Suc i \<le> j" by simp
            with same(3) j have "\<not> lru_free bk (lastuse (bk i)) j" by blast
            with j show ?thesis by (simp add: lru_free_def not_less)
          qed
        qed
        with same fi lt show ?thesis by auto
      next
        case later
        have lk: "lastuse (bk k) < lastuse (bk i)" "refcnt (bk k) = 0"
          using later(5) by (simp_all add: lru_free_def)
        have "lru_best bk i k"
          unfolding lru_best_def
        proof (intro allI impI)
          fix j assume j: "i \<le> j \<and> j < BUFFERSIZE \<and> refcnt (bk j) = 0"
          show "lastuse (bk k) \<le> lastuse (bk j) \<and> (lastuse (bk j) = lastuse (bk k) \<longrightarrow> k \<le> j)"
          proof (cases "j = i")
            case True with lk show ?thesis by auto
          next
            case False
            with j have "Suc i \<le> j" by simp
            with later(6) j show ?thesis by (simp add: lru_best_def)
          qed
        qed
        moreover have "lru_free bk least k"
          using lk True by (auto simp: lru_free_def)
        ultimately show ?thesis using later by auto
      qed
    next
      case False
      then have nfi: "\<not> lru_free bk least i" by (simp add: lru_free_def)
      have "lru_loop bk (Suc i) least least_idx = (l', idx')"
        using "1.prems" lt False by (subst (asm) lru_loop.simps) auto
      from "1.IH"(2) [OF lt False this]
      consider (same) "idx' = least_idx" "l' = least"
          "\<forall>j. Suc i \<le> j \<and> j < BUFFERSIZE \<longrightarrow> \<not> lru_free bk least j"
        | (later) k where "Suc i \<le> k" "k < BUFFERSIZE" "idx' = int k" "l' = lastuse (bk k)"
          "lru_free bk least k" "lru_best bk (Suc i) k"
        by blast
      then show ?thesis
      proof cases
        case same
        have "\<forall>j. i \<le> j \<and> j < BUFFERSIZE \<longrightarrow> \<not> lru_free bk least j"
        proof (intro allI impI)
          fix j assume j: "i \<le> j \<and> j < BUFFERSIZE"
          show "\<not> lru_free bk least j"
          proof (cases "j = i")
            case True with nfi show ?thesis by simp
          next
            case False
            with j have "Suc i \<le> j" by simp
            with same(3) j show ?thesis by blast
          qed
        qed
        with same show ?thesis by simp
      next
        case later
        have lk: "lastuse (bk k) < least" using later(5) by (simp add: lru_free_def)
        have "lru_best bk i k"
          unfolding lru_best_def
        proof (intro allI impI)
          fix j assume j: "i \<le> j \<and> j < BUFFERSIZE \<and> refcnt (bk j) = 0"
          show "lastuse (bk k) \<le> lastuse (bk j) \<and> (lastuse (bk j) = lastuse (bk k) \<longrightarrow> k \<le> j)"
          proof (cases "j = i")
            case True
            with j nfi have "least \<le> lastuse (bk i)" by (simp add: lru_free_def not_less)
            with lk True show ?thesis by auto
          next
            case False
            with j have "Suc i \<le> j" by simp
            with later(6) j show ?thesis by (simp add: lru_best_def)
          qed
        qed
        with later show ?thesis by auto
      qed
    qed
  qed
qed

lemma binit_inner:
  "fold (\<lambda>j s. buf_upd (i, j) f s) [0..<n] s =
     s\<lparr>bcachebucket := \<lambda>p k. if p = i \<and> k < n then f (bcachebucket s p k) else bcachebucket s p k\<rparr>"
proof (induction n)
  case 0
  show ?case by simp
next
  case (Suc n)
  let ?g = "\<lambda>j s. buf_upd (i, j) f s"
  have "fold ?g [0..<Suc n] s = ?g n (fold ?g [0..<n] s)"
    by simp
  also have "\<dots> = ?g n (s\<lparr>bcachebucket :=
      \<lambda>p k. if p = i \<and> k < n then f (bcachebucket s p k) else bcachebucket s p k\<rparr>)"
    by (simp only: Suc)
  also have "\<dots> = s\<lparr>bcachebucket :=
      \<lambda>p k. if p = i \<and> k < Suc n then f (bcachebucket s p k) else bcachebucket s p k\<rparr>"
    by (auto simp: buf_upd_def fun_eq_iff less_Suc_eq)
  finally show ?case .
qed

lemma binit_outer:
  "fold (\<lambda>i s. fold (\<lambda>j s. buf_upd (i, j) f s) [0..<m] s) [0..<n] s =
     s\<lparr>bcachebucket := \<lambda>p k. if p < n \<and> k < m then f (bcachebucket s p k) else bcachebucket s p k\<rparr>"
proof (induction n)
  case 0
  show ?case by simp
next
  case (Suc n)
  let ?g = "\<lambda>i s. fold (\<lambda>j s. buf_upd (i, j) f s) [0..<m] s"
  have "fold ?g [0..<Suc n] s = ?g n (fold ?g [0..<n] s)"
    by simp
  also have "\<dots> = ?g n (s\<lparr>bcachebucket :=
      \<lambda>p k. if p < n \<and> k < m then f (bcachebucket s p k) else bcachebucket s p k\<rparr>)"
    by (simp only: Suc)
  also have "\<dots> = s\<lparr>bcachebucket :=
      \<lambda>p k. if p < Suc n \<and> k < m then f (bcachebucket s p k) else bcachebucket s p k\<rparr>"
    by (auto simp: binit_inner fun_eq_iff less_Suc_eq)
  finally show ?case .
qed

lemma binit_eq:
  "binit s =
     s\<lparr>bcachebucket := \<lambda>p k. if p < BUCKETSIZE \<and> k < BUFFERSIZE then binit_buf (bcachebucket s p k)
                              else bcachebucket s p k\<rparr>"
  by (simp add: binit_def binit_outer)

lemma binit_static: "binit (kernel_static B d) = kernel_static B d"
  by (simp add: binit_eq kernel_static_def binit_buf_def buf_static_def fun_eq_iff)

section \<open>Initialisation of the buffer cache\<close>

text \<open>
  C6. \<open>binit\<close> sets the reference count and the last-use timestamp of every buffer slot
  of every bucket to 0 and initialises its sleep lock, whatever the slot held before, and
  leaves the slot's validity, device, block number and payload as they were. Run on the
  zeroed static storage the kernel starts with, it leaves every slot with reference count 0,
  last-use timestamp 0 and not valid.
\<close>

theorem binit_slots:
  "(\<forall>p<BUCKETSIZE. \<forall>i<BUFFERSIZE.
      refcnt (bcachebucket (binit s) p i) = 0 \<and>
      lastuse (bcachebucket (binit s) p i) = 0 \<and>
      lock (bcachebucket (binit s) p i) = None \<and>
      valid (bcachebucket (binit s) p i) = valid (bcachebucket s p i) \<and>
      dev (bcachebucket (binit s) p i) = dev (bcachebucket s p i) \<and>
      blockno (bcachebucket (binit s) p i) = blockno (bcachebucket s p i) \<and>
      data (bcachebucket (binit s) p i) = data (bcachebucket s p i)) \<and>
   (\<forall>p<BUCKETSIZE. \<forall>i<BUFFERSIZE.
      refcnt (bcachebucket (binit (kernel_static BSIZE d)) p i) = 0 \<and>
      lastuse (bcachebucket (binit (kernel_static BSIZE d)) p i) = 0 \<and>
      \<not> valid (bcachebucket (binit (kernel_static BSIZE d)) p i))"
  by (simp add: binit_eq binit_buf_def kernel_static_def buf_static_def)

theorem binit_slots_witness:
  "(0::nat) < BUCKETSIZE \<and> (2::nat) < BUFFERSIZE \<and>
   refcnt (bcachebucket example_recycled 0 2) = 1 \<and>
   lastuse (bcachebucket example_recycled 0 2) = 5 \<and>
   lock (bcachebucket example_recycled 0 2) = Some 7 \<and>
   refcnt (bcachebucket (binit example_recycled) 0 2) = 0 \<and>
   lastuse (bcachebucket (binit example_recycled) 0 2) = 0 \<and>
   lock (bcachebucket (binit example_recycled) 0 2) = None \<and>
   blockno (bcachebucket (binit example_recycled) 0 2) = 13 \<and>
   refcnt (bcachebucket (binit (kernel_static 1024 (\<lambda>dv bn. []))) 0 2) = 0 \<and>
   lastuse (bcachebucket (binit (kernel_static 1024 (\<lambda>dv bn. []))) 0 2) = 0 \<and>
   \<not> valid (bcachebucket (binit (kernel_static 1024 (\<lambda>dv bn. []))) 0 2)"
proof -
  have b: "(0::nat) < BUCKETSIZE" "(2::nat) < BUFFERSIZE"
    by (simp_all add: BUCKETSIZE_def BUFFERSIZE_def)
  have before: "refcnt (bcachebucket example_recycled 0 2) = 1"
      "lastuse (bcachebucket example_recycled 0 2) = 5"
      "lock (bcachebucket example_recycled 0 2) = Some 7"
      "blockno (bcachebucket example_recycled 0 2) = 13"
    by (simp_all add: example_recycled_def buf_upd_def)
  from binit_slots [of example_recycled 1024 "\<lambda>dv bn. []"] b before
  show ?thesis by simp
qed

lemma lru_loop_top:
  assumes "lru_loop bk 0 0xffffffff (- 1) = (l, idx)"
  shows "(idx = - 1 \<and> (\<forall>j<BUFFERSIZE. \<not> lru_free bk 0xffffffff j)) \<or>
         (\<exists>k<BUFFERSIZE. idx = int k \<and> lru_free bk 0xffffffff k \<and> lru_best bk 0 k)"
  using lru_loop_inv [OF assms] by auto

lemma lru_best_unique:
  assumes "lru_best bk 0 k" "lru_best bk 0 k'" "k < BUFFERSIZE" "k' < BUFFERSIZE"
    "refcnt (bk k) = 0" "refcnt (bk k') = 0"
  shows "k = k'"
proof -
  from assms(1,4,6) have a: "lastuse (bk k) \<le> lastuse (bk k')"
      "lastuse (bk k') = lastuse (bk k) \<longrightarrow> k \<le> k'"
    by (simp_all add: lru_best_def)
  from assms(2,3,5) have b: "lastuse (bk k') \<le> lastuse (bk k)"
      "lastuse (bk k) = lastuse (bk k') \<longrightarrow> k' \<le> k"
    by (simp_all add: lru_best_def)
  from a b show ?thesis by auto
qed

text \<open>The slot written by a miss in \<open>bget\<close>.\<close>

lemma bget_miss:
  assumes nomatch: "\<forall>j<BUFFERSIZE. \<not> (dev (bcachebucket s (unat bn mod BUCKETSIZE) j) = d \<and>
                       blockno (bcachebucket s (unat bn mod BUCKETSIZE) j) = bn)"
  shows "((\<forall>j<BUFFERSIZE. \<not> lru_free (bcachebucket s (unat bn mod BUCKETSIZE)) 0xffffffff j) \<and>
          bget pid d bn ticks s = Panic ''do not have enough free buffer'') \<or>
         (\<exists>k<BUFFERSIZE. lru_free (bcachebucket s (unat bn mod BUCKETSIZE)) 0xffffffff k \<and>
            lru_best (bcachebucket s (unat bn mod BUCKETSIZE)) 0 k \<and>
            bget pid d bn ticks s =
              acquiresleep pid (unat bn mod BUCKETSIZE, k)
                (buf_upd (unat bn mod BUCKETSIZE, k)
                   (\<lambda>b. b\<lparr>dev := d, blockno := bn, lastuse := ticks, valid := False,
                           refcnt := 1\<rparr>) s))"
proof -
  let ?p = "unat bn mod BUCKETSIZE"
  have c: "cached_loop (bcachebucket s ?p) d bn 0 = None"
    using nomatch by (simp add: cached_loop_None)
  obtain l idx where r: "lru_loop (bcachebucket s ?p) 0 0xffffffff (- 1) = (l, idx)"
    by (cases "lru_loop (bcachebucket s ?p) 0 0xffffffff (- 1)")
  from lru_loop_top [OF r] show ?thesis
  proof
    assume "idx = - 1 \<and> (\<forall>j<BUFFERSIZE. \<not> lru_free (bcachebucket s ?p) 0xffffffff j)"
    then show ?thesis using c r by (simp add: bget_def Let_def)
  next
    assume "\<exists>k<BUFFERSIZE. idx = int k \<and> lru_free (bcachebucket s ?p) 0xffffffff k \<and>
              lru_best (bcachebucket s ?p) 0 k"
    then obtain k where k: "k < BUFFERSIZE" "idx = int k"
        "lru_free (bcachebucket s ?p) 0xffffffff k" "lru_best (bcachebucket s ?p) 0 k"
      by blast
    have "bget pid d bn ticks s =
            acquiresleep pid (?p, k)
              (buf_upd (?p, k)
                 (\<lambda>b. b\<lparr>dev := d, blockno := bn, lastuse := ticks, valid := False,
                         refcnt := 1\<rparr>) s)"
      using c r k(2) by (simp add: bget_def Let_def)
    with k show ?thesis by blast
  qed
qed

lemma bget_hit:
  assumes "k < BUFFERSIZE"
    "dev (bcachebucket s (unat bn mod BUCKETSIZE) k) = d \<and>
     blockno (bcachebucket s (unat bn mod BUCKETSIZE) k) = bn"
    "\<forall>j<k. \<not> (dev (bcachebucket s (unat bn mod BUCKETSIZE) j) = d \<and>
                       blockno (bcachebucket s (unat bn mod BUCKETSIZE) j) = bn)"
  shows "bget pid d bn ticks s =
           acquiresleep pid (unat bn mod BUCKETSIZE, k)
             (buf_upd (unat bn mod BUCKETSIZE, k)
                (\<lambda>b. b\<lparr>refcnt := refcnt b + 1, lastuse := ticks\<rparr>) s)"
proof -
  have "cached_loop (bcachebucket s (unat bn mod BUCKETSIZE)) d bn 0 = Some k"
    using assms by (simp add: cached_loop_Some)
  then show ?thesis by (simp add: bget_def Let_def)
qed

lemma acquiresleep_outcome:
  "outcome_of (acquiresleep pid b s) = Some (s', b') \<Longrightarrow>
     b' = b \<and> (s' = s \<or> s' = buf_upd b (\<lambda>x. x\<lparr>lock := Some pid\<rparr>) s)"
  by (auto simp: acquiresleep_def split: option.splits)

lemma bcachebucket_buf_upd:
  "bcachebucket (buf_upd b f s) p i =
     (if p = fst b \<and> i = snd b then f (bcachebucket s p i) else bcachebucket s p i)"
  by (simp add: buf_upd_def)

lemma disk_buf_upd: "disk (buf_upd b f s) = disk s"
  by (simp add: buf_upd_def)

lemma ndisk_rw_buf_upd: "ndisk_rw (buf_upd b f s) = ndisk_rw s"
  by (simp add: buf_upd_def)

lemma bget_miss_outcome:
  assumes nomatch: "\<forall>j<BUFFERSIZE. \<not> (dev (bcachebucket s (unat bn mod BUCKETSIZE) j) = d \<and>
                       blockno (bcachebucket s (unat bn mod BUCKETSIZE) j) = bn)"
    and out: "outcome_of (bget pid d bn ticks s) = Some (s', b)"
  shows "\<exists>k<BUFFERSIZE. b = (unat bn mod BUCKETSIZE, k) \<and>
           lru_free (bcachebucket s (unat bn mod BUCKETSIZE)) 0xffffffff k \<and>
           lru_best (bcachebucket s (unat bn mod BUCKETSIZE)) 0 k \<and>
           (s' = buf_upd b
                   (\<lambda>b. b\<lparr>dev := d, blockno := bn, lastuse := ticks, valid := False,
                           refcnt := 1\<rparr>) s \<or>
            s' = buf_upd b (\<lambda>x. x\<lparr>lock := Some pid\<rparr>)
                   (buf_upd b
                      (\<lambda>b. b\<lparr>dev := d, blockno := bn, lastuse := ticks, valid := False,
                              refcnt := 1\<rparr>) s))"
proof -
  let ?p = "unat bn mod BUCKETSIZE"
  let ?f = "\<lambda>b. b\<lparr>dev := d, blockno := bn, lastuse := ticks, valid := False, refcnt := 1\<rparr>"
  from bget_miss [OF nomatch, of pid ticks] out
  obtain k where k: "k < BUFFERSIZE" "lru_free (bcachebucket s ?p) 0xffffffff k"
      "lru_best (bcachebucket s ?p) 0 k"
      "bget pid d bn ticks s = acquiresleep pid (?p, k) (buf_upd (?p, k) ?f s)"
    by auto
  from out k(4) acquiresleep_outcome [of pid "(?p, k)" "buf_upd (?p, k) ?f s" s' b]
  have "b = (?p, k)"
    and "s' = buf_upd (?p, k) ?f s \<or>
         s' = buf_upd (?p, k) (\<lambda>x. x\<lparr>lock := Some pid\<rparr>) (buf_upd (?p, k) ?f s)"
    by simp_all
  with k(1,2,3) show ?thesis by blast
qed

lemma example_eval:
  "bget 7 1 13 5 example_cache =
     Returned (buf_upd (0, 2) (\<lambda>x. x\<lparr>lock := Some 7\<rparr>)
                (buf_upd (0, 2)
                   (\<lambda>b. b\<lparr>dev := 1, blockno := 13, lastuse := 5, valid := False, refcnt := 1\<rparr>)
                   example_cache), (0, 2))"
  by (simp add: bget_def Let_def BUCKETSIZE_def BUFFERSIZE_def cached_loop.simps lru_loop.simps
      acquiresleep_def buf_at_def bcachebucket_buf_upd example_cache_def kernel_static_def
      buf_static_def)

section \<open>Releasing a buffer\<close>

text \<open>
  C9. \<open>brelse\<close> panics unless the calling process holds the buffer's sleep lock. When it
  does, \<open>brelse\<close> returns, the buffer's reference count is one less (as a \<open>uint\<close>) and its
  lock is released; its last-use timestamp, validity, device, block number and payload, every
  other buffer, and the device are unchanged.
\<close>

theorem brelse_frame:
  "(\<not> holdingsleep pid (lock (buf_at s b)) \<longrightarrow> brelse pid b s = Panic ''brelse'') \<and>
   (holdingsleep pid (lock (buf_at s b)) \<longrightarrow>
      (\<exists>s'. brelse pid b s = Returned s' \<and>
         refcnt (buf_at s' b) = refcnt (buf_at s b) - 1 \<and>
         lock (buf_at s' b) = None \<and>
         lastuse (buf_at s' b) = lastuse (buf_at s b) \<and>
         valid (buf_at s' b) = valid (buf_at s b) \<and>
         dev (buf_at s' b) = dev (buf_at s b) \<and>
         blockno (buf_at s' b) = blockno (buf_at s b) \<and>
         data (buf_at s' b) = data (buf_at s b) \<and>
         (\<forall>c. c \<noteq> b \<longrightarrow> buf_at s' c = buf_at s c) \<and>
         disk s' = disk s \<and> ndisk_rw s' = ndisk_rw s))"
  by (simp add: brelse_def buf_at_buf_upd disk_buf_upd ndisk_rw_buf_upd)

lemma example_recycled_lock: "lock (buf_at example_recycled (0, 2)) = Some 7"
  by (simp add: example_recycled_def buf_at_buf_upd)

theorem brelse_frame_witness:
  "brelse 8 (0, 2) example_recycled = Panic ''brelse'' \<and>
   holdingsleep 7 (lock (buf_at example_recycled (0, 2))) \<and>
   (\<exists>s'. brelse 7 (0, 2) example_recycled = Returned s' \<and>
      refcnt (buf_at s' (0, 2)) = 0 \<and> lastuse (buf_at s' (0, 2)) = 5 \<and>
      buf_at s' (0, 1) = buf_at example_recycled (0, 1))"
proof -
  have h: "holdingsleep 7 (lock (buf_at example_recycled (0, 2)))"
      "\<not> holdingsleep 8 (lock (buf_at example_recycled (0, 2)))"
    by (simp_all add: holdingsleep_def example_recycled_lock)
  have v: "refcnt (buf_at example_recycled (0, 2)) = 1"
      "lastuse (buf_at example_recycled (0, 2)) = 5"
    by (simp_all add: example_recycled_def buf_at_buf_upd)
  from brelse_frame [of 8 example_recycled "(0, 2)"] h(2)
  have "brelse 8 (0, 2) example_recycled = Panic ''brelse''" by blast
  moreover from brelse_frame [of 7 example_recycled "(0, 2)"] h(1)
  obtain s' where "brelse 7 (0, 2) example_recycled = Returned s'"
      "refcnt (buf_at s' (0, 2)) = refcnt (buf_at example_recycled (0, 2)) - 1"
      "lastuse (buf_at s' (0, 2)) = lastuse (buf_at example_recycled (0, 2))"
      "\<forall>c. c \<noteq> (0, 2) \<longrightarrow> buf_at s' c = buf_at example_recycled c"
    by blast
  ultimately show ?thesis using h(1) v by auto
qed

section \<open>The last-use timestamp of a recycled slot\<close>

text \<open>
  C10. Whenever \<open>bget\<close> gets a buffer, on a hit or on a miss, the buffer's last-use
  timestamp is the tick counter read by the call. On a miss, therefore, the recycled slot is
  the most recently used of its bucket: its timestamp is at least that of every slot of the
  bucket whose own timestamp is not ahead of the tick counter. And a later miss (in any state)
  does not recycle this slot while the bucket has an unreferenced slot with a smaller
  timestamp.
\<close>

theorem bget_lastuse_ticks:
  assumes out: "outcome_of (bget pid d bn ticks s) = Some (s', b)"
  shows "lastuse (buf_at s' b) = ticks \<and>
         ((\<forall>j<BUFFERSIZE. \<not> (dev (bcachebucket s (unat bn mod BUCKETSIZE) j) = d \<and>
                       blockno (bcachebucket s (unat bn mod BUCKETSIZE) j) = bn)) \<longrightarrow>
          (\<forall>j<BUFFERSIZE. lastuse (bcachebucket s (fst b) j) \<le> ticks \<longrightarrow>
                lastuse (bcachebucket s' (fst b) j) \<le> lastuse (buf_at s' b)) \<and>
          (\<forall>pid2 d2 bn2 ticks2 s2 s3 b2.
              (\<forall>j<BUFFERSIZE. \<not> (dev (bcachebucket s2 (unat bn2 mod BUCKETSIZE) j) = d2 \<and>
                       blockno (bcachebucket s2 (unat bn2 mod BUCKETSIZE) j) = bn2)) \<and>
              outcome_of (bget pid2 d2 bn2 ticks2 s2) = Some (s3, b2) \<and>
              (\<exists>j<BUFFERSIZE. refcnt (bcachebucket s2 (fst b) j) = 0 \<and>
                     lastuse (bcachebucket s2 (fst b) j) < lastuse (buf_at s2 b)) \<longrightarrow>
              b2 \<noteq> b))"
proof (intro conjI impI allI)
  show "lastuse (buf_at s' b) = ticks"
  proof (cases "cached_loop (bcachebucket s (unat bn mod BUCKETSIZE)) d bn 0")
    case None
    then have "\<forall>j<BUFFERSIZE. \<not> (dev (bcachebucket s (unat bn mod BUCKETSIZE) j) = d \<and>
                       blockno (bcachebucket s (unat bn mod BUCKETSIZE) j) = bn)"
      by (simp add: cached_loop_None)
    from bget_miss_outcome [OF this out] show ?thesis
      by (auto simp: buf_at_buf_upd)
  next
    case (Some k)
    let ?p = "unat bn mod BUCKETSIZE"
    let ?g = "\<lambda>b. b\<lparr>refcnt := refcnt b + 1, lastuse := ticks\<rparr>"
    from Some have "bget pid d bn ticks s = acquiresleep pid (?p, k) (buf_upd (?p, k) ?g s)"
      by (simp add: bget_def Let_def)
    with out acquiresleep_outcome [of pid "(?p, k)" "buf_upd (?p, k) ?g s" s' b]
    show ?thesis by (auto simp: buf_at_buf_upd)
  qed
next
  fix j
  assume nomatch: "\<forall>j<BUFFERSIZE. \<not> (dev (bcachebucket s (unat bn mod BUCKETSIZE) j) = d \<and>
                       blockno (bcachebucket s (unat bn mod BUCKETSIZE) j) = bn)"
    and j: "j < BUFFERSIZE" "lastuse (bcachebucket s (fst b) j) \<le> ticks"
  from bget_miss_outcome [OF nomatch out]
  show "lastuse (bcachebucket s' (fst b) j) \<le> lastuse (buf_at s' b)"
    using j(2) by (auto simp: buf_at_def bcachebucket_buf_upd)
next
  fix pid2 d2 bn2 ticks2 s2 s3 b2
  assume h: "(\<forall>j<BUFFERSIZE. \<not> (dev (bcachebucket s2 (unat bn2 mod BUCKETSIZE) j) = d2 \<and>
                       blockno (bcachebucket s2 (unat bn2 mod BUCKETSIZE) j) = bn2)) \<and>
              outcome_of (bget pid2 d2 bn2 ticks2 s2) = Some (s3, b2) \<and>
              (\<exists>j<BUFFERSIZE. refcnt (bcachebucket s2 (fst b) j) = 0 \<and>
                     lastuse (bcachebucket s2 (fst b) j) < lastuse (buf_at s2 b))"
  then obtain j where j: "j < BUFFERSIZE" "refcnt (bcachebucket s2 (fst b) j) = 0"
      "lastuse (bcachebucket s2 (fst b) j) < lastuse (buf_at s2 b)"
    by blast
  from h bget_miss_outcome [of s2 bn2 d2 pid2 ticks2 s3 b2]
  obtain k where k: "b2 = (unat bn2 mod BUCKETSIZE, k)"
      "lru_best (bcachebucket s2 (unat bn2 mod BUCKETSIZE)) 0 k"
    by blast
  show "b2 \<noteq> b"
  proof
    assume "b2 = b"
    with k j(1,2) have "lastuse (buf_at s2 b) \<le> lastuse (bcachebucket s2 (fst b) j)"
      by (auto simp: lru_best_def buf_at_def)
    with j(3) show False by simp
  qed
qed

theorem bget_lastuse_ticks_witness:
  "outcome_of (bget 7 1 13 5 example_cache) = Some (example_recycled, (0, 2)) \<and>
   lastuse (buf_at example_recycled (0, 2)) = 5 \<and>
   lastuse (bcachebucket example_cache 0 3) \<le> 5 \<and>
   lastuse (bcachebucket example_recycled 0 3) \<le> lastuse (buf_at example_recycled (0, 2))"
proof -
  have h1: "\<forall>j<BUFFERSIZE. \<not> (dev (bcachebucket example_cache (unat (13 :: uint) mod BUCKETSIZE) j) = 1 \<and>
              blockno (bcachebucket example_cache (unat (13 :: uint) mod BUCKETSIZE) j) = 13)"
    by (simp add: example_cache_def bcachebucket_buf_upd kernel_static_def buf_static_def
        BUCKETSIZE_def)
  have h2: "outcome_of (bget 7 1 13 5 example_cache) = Some (example_recycled, (0, 2))"
    by (simp add: example_eval example_recycled_def)
  have h3: "(3::nat) < BUFFERSIZE" "lastuse (bcachebucket example_cache 0 3) \<le> 5"
    by (simp_all add: BUFFERSIZE_def example_cache_def bcachebucket_buf_upd kernel_static_def
        buf_static_def)
  from bget_lastuse_ticks [OF h2] h1
  have "lastuse (buf_at example_recycled (0, 2)) = 5"
    and "\<forall>j<BUFFERSIZE. lastuse (bcachebucket example_cache (fst (0::nat, 2::nat)) j) \<le> 5 \<longrightarrow>
           lastuse (bcachebucket example_recycled (fst (0::nat, 2::nat)) j)
             \<le> lastuse (buf_at example_recycled (0, 2))"
    by blast+
  with h2 h3 show ?thesis by simp
qed

lemma bget_miss_at:
  assumes nomatch: "\<forall>j<BUFFERSIZE. \<not> (dev (bcachebucket s (unat bn mod BUCKETSIZE) j) = d \<and>
                       blockno (bcachebucket s (unat bn mod BUCKETSIZE) j) = bn)"
    and k: "k < BUFFERSIZE" "lru_free (bcachebucket s (unat bn mod BUCKETSIZE)) 0xffffffff k"
      "lru_best (bcachebucket s (unat bn mod BUCKETSIZE)) 0 k"
  shows "bget pid d bn ticks s =
           acquiresleep pid (unat bn mod BUCKETSIZE, k)
             (buf_upd (unat bn mod BUCKETSIZE, k)
                (\<lambda>b. b\<lparr>dev := d, blockno := bn, lastuse := ticks, valid := False,
                        refcnt := 1\<rparr>) s)"
proof -
  let ?bk = "bcachebucket s (unat bn mod BUCKETSIZE)"
  from bget_miss [OF nomatch, of pid ticks] k(1,2)
  obtain k' where k': "k' < BUFFERSIZE" "lru_free ?bk 0xffffffff k'" "lru_best ?bk 0 k'"
      "bget pid d bn ticks s =
         acquiresleep pid (unat bn mod BUCKETSIZE, k')
           (buf_upd (unat bn mod BUCKETSIZE, k')
              (\<lambda>b. b\<lparr>dev := d, blockno := bn, lastuse := ticks, valid := False,
                      refcnt := 1\<rparr>) s)"
    by blast
  have "k = k'"
    using lru_best_unique [OF k(3) k'(3) k(1) k'(1)] k(2) k'(2) by (simp add: lru_free_def)
  with k'(4) show ?thesis by simp
qed

lemma bget_miss_panic:
  assumes nomatch: "\<forall>j<BUFFERSIZE. \<not> (dev (bcachebucket s (unat bn mod BUCKETSIZE) j) = d \<and>
                       blockno (bcachebucket s (unat bn mod BUCKETSIZE) j) = bn)"
    and "\<forall>j<BUFFERSIZE. refcnt (bcachebucket s (unat bn mod BUCKETSIZE) j) = 0 \<longrightarrow>
           lastuse (bcachebucket s (unat bn mod BUCKETSIZE) j) = 0xffffffff"
  shows "bget pid d bn ticks s = Panic ''do not have enough free buffer''"
proof -
  have "\<forall>j<BUFFERSIZE. \<not> lru_free (bcachebucket s (unat bn mod BUCKETSIZE)) 0xffffffff j"
    using assms(2) by (auto simp: lru_free_def)
  with bget_miss [OF nomatch, of pid ticks] show ?thesis by blast
qed

lemma bget_all_fresh:
  assumes d: "d \<noteq> 0"
  shows "distinct bns \<Longrightarrow> \<forall>bn\<in>set bns. unat bn mod BUCKETSIZE = p \<Longrightarrow>
     i + length bns \<le> BUFFERSIZE \<Longrightarrow>
     \<forall>j<i. refcnt (bcachebucket s p j) \<noteq> 0 \<and>
            (dev (bcachebucket s p j) = d \<longrightarrow> blockno (bcachebucket s p j) \<notin> set bns) \<Longrightarrow>
     \<forall>j. i \<le> j \<and> j < BUFFERSIZE \<longrightarrow> bcachebucket s p j = buf_static B \<Longrightarrow>
     \<exists>s'. bget_all pid d t bns s = Some s' \<and>
       (\<forall>j<i. bcachebucket s' p j = bcachebucket s p j) \<and>
       (\<forall>j. i \<le> j \<and> j < i + length bns \<longrightarrow>
            bcachebucket s' p j =
              (buf_static B)\<lparr>dev := d, blockno := bns ! (j - i), lastuse := t, valid := False,
                              refcnt := 1, lock := Some pid\<rparr>) \<and>
       (\<forall>j. i + length bns \<le> j \<and> j < BUFFERSIZE \<longrightarrow> bcachebucket s' p j = buf_static B)"
proof (induction bns arbitrary: i s)
  case Nil
  then show ?case by auto
next
  case (Cons bn bns)
  let ?bk = "bcachebucket s p"
  let ?f = "\<lambda>b. b\<lparr>dev := d, blockno := bn, lastuse := t, valid := False, refcnt := 1\<rparr>"
  let ?s1 = "buf_upd (p, i) (\<lambda>x. x\<lparr>lock := Some pid\<rparr>) (buf_upd (p, i) ?f s)"
  have p: "unat bn mod BUCKETSIZE = p" using Cons.prems(2) by simp
  have i: "i < BUFFERSIZE" using Cons.prems(3) by simp
  have static: "\<And>j. i \<le> j \<Longrightarrow> j < BUFFERSIZE \<Longrightarrow> ?bk j = buf_static B"
    using Cons.prems(5) by blast
  have held: "\<And>j. j < i \<Longrightarrow> refcnt (?bk j) \<noteq> 0 \<and>
      (dev (?bk j) = d \<longrightarrow> blockno (?bk j) \<noteq> bn \<and> blockno (?bk j) \<notin> set bns)"
    using Cons.prems(4) by simp
  have nomatch: "\<forall>j<BUFFERSIZE. \<not> (dev (bcachebucket s (unat bn mod BUCKETSIZE) j) = d \<and>
                       blockno (bcachebucket s (unat bn mod BUCKETSIZE) j) = bn)"
  proof (intro allI impI)
    fix j assume j: "j < BUFFERSIZE"
    show "\<not> (dev (bcachebucket s (unat bn mod BUCKETSIZE) j) = d \<and>
              blockno (bcachebucket s (unat bn mod BUCKETSIZE) j) = bn)"
    proof (cases "j < i")
      case True
      with held [of j] show ?thesis by (auto simp: p)
    next
      case False
      with static [of j] j d show ?thesis by (auto simp: p buf_static_def)
    qed
  qed
  have free: "lru_free (bcachebucket s (unat bn mod BUCKETSIZE)) 0xffffffff i"
    using static [of i] i by (simp add: p lru_free_def buf_static_def)
  have best: "lru_best (bcachebucket s (unat bn mod BUCKETSIZE)) 0 i"
    unfolding lru_best_def p
  proof (intro allI impI)
    fix j assume j: "0 \<le> j \<and> j < BUFFERSIZE \<and> refcnt (?bk j) = 0"
    with held [of j] have "i \<le> j" by (cases "j < i") auto
    with static [of j] static [of i] i j
    show "lastuse (?bk i) \<le> lastuse (?bk j) \<and> (lastuse (?bk j) = lastuse (?bk i) \<longrightarrow> i \<le> j)"
      by simp
  qed
  have "bget pid d bn t s = acquiresleep pid (p, i) (buf_upd (p, i) ?f s)"
    using bget_miss_at [OF nomatch i free best, of pid t] by (simp add: p)
  moreover have "lock (buf_at (buf_upd (p, i) ?f s) (p, i)) = None"
    using static [of i] i by (simp add: buf_at_def bcachebucket_buf_upd buf_static_def)
  ultimately have step: "bget pid d bn t s = Returned (?s1, (p, i))"
    by (simp add: acquiresleep_def)
  have s1_i: "bcachebucket ?s1 p i =
      (buf_static B)\<lparr>dev := d, blockno := bn, lastuse := t, valid := False, refcnt := 1,
                      lock := Some pid\<rparr>"
    using static [of i] i by (simp add: bcachebucket_buf_upd)
  have s1_other: "\<And>j. j \<noteq> i \<Longrightarrow> bcachebucket ?s1 p j = ?bk j"
    by (simp add: bcachebucket_buf_upd)
  have "distinct bns" "\<forall>bn\<in>set bns. unat bn mod BUCKETSIZE = p"
      "Suc i + length bns \<le> BUFFERSIZE"
    using Cons.prems(1,2,3) by simp_all
  moreover have "\<forall>j<Suc i. refcnt (bcachebucket ?s1 p j) \<noteq> 0 \<and>
      (dev (bcachebucket ?s1 p j) = d \<longrightarrow> blockno (bcachebucket ?s1 p j) \<notin> set bns)"
  proof (intro allI impI)
    fix j assume "j < Suc i"
    then consider "j = i" | "j < i" by linarith
    then show "refcnt (bcachebucket ?s1 p j) \<noteq> 0 \<and>
      (dev (bcachebucket ?s1 p j) = d \<longrightarrow> blockno (bcachebucket ?s1 p j) \<notin> set bns)"
    proof cases
      case 1
      with s1_i Cons.prems(1) show ?thesis by simp
    next
      case 2
      with s1_other [of j] held [of j] show ?thesis by simp
    qed
  qed
  moreover have "\<forall>j. Suc i \<le> j \<and> j < BUFFERSIZE \<longrightarrow> bcachebucket ?s1 p j = buf_static B"
    using s1_other static by simp
  ultimately obtain s' where s': "bget_all pid d t bns ?s1 = Some s'"
      "\<forall>j<Suc i. bcachebucket s' p j = bcachebucket ?s1 p j"
      "\<forall>j. Suc i \<le> j \<and> j < Suc i + length bns \<longrightarrow>
            bcachebucket s' p j =
              (buf_static B)\<lparr>dev := d, blockno := bns ! (j - Suc i), lastuse := t, valid := False,
                              refcnt := 1, lock := Some pid\<rparr>"
      "\<forall>j. Suc i + length bns \<le> j \<and> j < BUFFERSIZE \<longrightarrow> bcachebucket s' p j = buf_static B"
    using Cons.IH [of "Suc i" ?s1] by blast
  have a: "bget_all pid d t (bn # bns) s = Some s'"
    using step s'(1) by simp
  have b: "\<forall>j<i. bcachebucket s' p j = bcachebucket s p j"
    using s'(2) s1_other by simp
  have c: "\<forall>j. i \<le> j \<and> j < i + length (bn # bns) \<longrightarrow>
            bcachebucket s' p j =
              (buf_static B)\<lparr>dev := d, blockno := (bn # bns) ! (j - i), lastuse := t,
                              valid := False, refcnt := 1, lock := Some pid\<rparr>"
  proof (intro allI impI)
    fix j assume j: "i \<le> j \<and> j < i + length (bn # bns)"
    show "bcachebucket s' p j =
              (buf_static B)\<lparr>dev := d, blockno := (bn # bns) ! (j - i), lastuse := t,
                              valid := False, refcnt := 1, lock := Some pid\<rparr>"
    proof (cases "j = i")
      case True
      with s'(2) s1_i show ?thesis by simp
    next
      case False
      with j have "Suc i \<le> j \<and> j < Suc i + length bns" by simp
      moreover from False j have "(bn # bns) ! (j - i) = bns ! (j - Suc i)"
        by (simp add: nth_Cons')
      ultimately show ?thesis using s'(3) by simp
    qed
  qed
  have e: "\<forall>j. i + length (bn # bns) \<le> j \<and> j < BUFFERSIZE \<longrightarrow> bcachebucket s' p j = buf_static B"
    using s'(4) by simp
  from a b c e show ?case by blast
qed

lemma uint_lt_max: "(t::uint) \<noteq> 0xffffffff \<Longrightarrow> t < 0xffffffff"
proof -
  have e: "(0xffffffff :: uint) = - 1" by simp
  assume "t \<noteq> 0xffffffff"
  then have "t \<noteq> - 1" unfolding e .
  then have "t < - 1" by (simp add: word_order.not_eq_extremum)
  then show "t < 0xffffffff" unfolding e .
qed

text \<open>The state of bucket 0 in scenario A once the seven blocks are held.\<close>

lemma scenario_A_held:
  "\<exists>s7. bget_all 1 1 t [13, 26, 39, 52, 65, 78, 91] (binit (kernel_static 0 (\<lambda>dv bn. []))) = Some s7 \<and>
     (\<forall>j<BUFFERSIZE. dev (bcachebucket s7 0 j) = 1 \<and>
        blockno (bcachebucket s7 0 j) \<in> set [13, 26, 39, 52, 65, 78, 91] \<and>
        refcnt (bcachebucket s7 0 j) = 1 \<and> lastuse (bcachebucket s7 0 j) = t \<and>
        lock (bcachebucket s7 0 j) = Some 1)"
proof -
  let ?bns = "[13, 26, 39, 52, 65, 78, 91] :: uint list"
  let ?s0 = "kernel_static 0 (\<lambda>dv bn. [])"
  have "\<exists>s'. bget_all 1 1 t ?bns ?s0 = Some s' \<and>
       (\<forall>j<0. bcachebucket s' 0 j = bcachebucket ?s0 0 j) \<and>
       (\<forall>j. 0 \<le> j \<and> j < 0 + length ?bns \<longrightarrow>
            bcachebucket s' 0 j =
              (buf_static 0)\<lparr>dev := 1, blockno := ?bns ! (j - 0), lastuse := t, valid := False,
                              refcnt := 1, lock := Some 1\<rparr>) \<and>
       (\<forall>j. 0 + length ?bns \<le> j \<and> j < BUFFERSIZE \<longrightarrow> bcachebucket s' 0 j = buf_static 0)"
  proof (rule bget_all_fresh)
    show "(1::uint) \<noteq> 0" by simp
    show "distinct ?bns" by simp
    show "\<forall>bn\<in>set ?bns. unat bn mod BUCKETSIZE = 0" by (simp add: BUCKETSIZE_def)
    show "0 + length ?bns \<le> BUFFERSIZE" by (simp add: BUFFERSIZE_def)
    show "\<forall>j<0. refcnt (bcachebucket ?s0 0 j) \<noteq> 0 \<and>
            (dev (bcachebucket ?s0 0 j) = 1 \<longrightarrow> blockno (bcachebucket ?s0 0 j) \<notin> set ?bns)"
      by simp
    show "\<forall>j. 0 \<le> j \<and> j < BUFFERSIZE \<longrightarrow> bcachebucket ?s0 0 j = buf_static 0"
      by (simp add: kernel_static_def)
  qed
  then obtain s7 where s7: "bget_all 1 1 t ?bns ?s0 = Some s7"
      "\<forall>j. 0 \<le> j \<and> j < 0 + length ?bns \<longrightarrow>
            bcachebucket s7 0 j =
              (buf_static 0)\<lparr>dev := 1, blockno := ?bns ! (j - 0), lastuse := t, valid := False,
                              refcnt := 1, lock := Some 1\<rparr>"
    by blast
  have "\<forall>j<BUFFERSIZE. dev (bcachebucket s7 0 j) = 1 \<and>
        blockno (bcachebucket s7 0 j) \<in> set ?bns \<and>
        refcnt (bcachebucket s7 0 j) = 1 \<and> lastuse (bcachebucket s7 0 j) = t \<and>
        lock (bcachebucket s7 0 j) = Some 1"
  proof (intro allI impI)
    fix j assume "j < BUFFERSIZE"
    then have j: "j < length ?bns" by (simp add: BUFFERSIZE_def)
    with s7(2) have "bcachebucket s7 0 j =
              (buf_static 0)\<lparr>dev := 1, blockno := ?bns ! j, lastuse := t, valid := False,
                              refcnt := 1, lock := Some 1\<rparr>"
      by simp
    moreover have "?bns ! j \<in> set ?bns" using j by (rule nth_mem)
    ultimately show "dev (bcachebucket s7 0 j) = 1 \<and>
        blockno (bcachebucket s7 0 j) \<in> set ?bns \<and>
        refcnt (bcachebucket s7 0 j) = 1 \<and> lastuse (bcachebucket s7 0 j) = t \<and>
        lock (bcachebucket s7 0 j) = Some 1"
      by simp
  qed
  with s7(1) show ?thesis by (auto simp: binit_static)
qed

lemma scenario_A_outcome:
  "\<exists>s7 s8. bget_all 1 1 t [13, 26, 39, 52, 65, 78, 91] (binit (kernel_static 0 (\<lambda>dv bn. []))) = Some s7 \<and>
     brelse 1 (0, 0) s7 = Returned s8 \<and>
     scenario_A t = Some (bget 1 1 104 t s7, bget 1 1 104 t s8) \<and>
     bget 1 1 104 t s7 = Panic ''do not have enough free buffer'' \<and>
     (if t = 0xffffffff then bget 1 1 104 t s8 = Panic ''do not have enough free buffer''
      else \<exists>s9. bget 1 1 104 t s8 = Returned (s9, (0, 0)))"
proof -
  let ?bns = "[13, 26, 39, 52, 65, 78, 91] :: uint list"
  let ?f = "\<lambda>b. b\<lparr>dev := 1, blockno := 104, lastuse := t, valid := False, refcnt := 1\<rparr>"
  from scenario_A_held [of t] obtain s7 where
    s7: "bget_all 1 1 t ?bns (binit (kernel_static 0 (\<lambda>dv bn. []))) = Some s7"
    and slots: "\<And>j. j < BUFFERSIZE \<Longrightarrow> dev (bcachebucket s7 0 j) = 1 \<and>
        blockno (bcachebucket s7 0 j) \<in> set ?bns \<and>
        refcnt (bcachebucket s7 0 j) = 1 \<and> lastuse (bcachebucket s7 0 j) = t \<and>
        lock (bcachebucket s7 0 j) = Some 1"
    by blast
  let ?s8 = "buf_upd (0, 0) (\<lambda>x. x\<lparr>lock := None\<rparr>)
               (buf_upd (0, 0) (\<lambda>x. x\<lparr>refcnt := refcnt x - 1\<rparr>) s7)"
  have p: "104 mod BUCKETSIZE = 0" "unat (104 :: uint) mod BUCKETSIZE = 0"
    by (simp_all add: BUCKETSIZE_def)
  have z: "0 < BUFFERSIZE" by (simp add: BUFFERSIZE_def)
  have rel: "brelse 1 (0, 0) s7 = Returned ?s8"
    using slots [OF z] by (simp add: brelse_def holdingsleep_def buf_at_def)
  have sc: "scenario_A t = Some (bget 1 1 104 t s7, bget 1 1 104 t ?s8)"
    using s7 rel by (simp add: scenario_A_def)
  have ne: "\<And>j. j < BUFFERSIZE \<Longrightarrow> blockno (bcachebucket s7 0 j) \<noteq> 104"
  proof -
    fix j assume "j < BUFFERSIZE"
    from slots [OF this] have "blockno (bcachebucket s7 0 j) \<in> set ?bns" by blast
    then show "blockno (bcachebucket s7 0 j) \<noteq> 104" by auto
  qed
  have nomatch7: "\<forall>j<BUFFERSIZE. \<not> (dev (bcachebucket s7 (unat (104 :: uint) mod BUCKETSIZE) j) = 1 \<and>
                       blockno (bcachebucket s7 (unat (104 :: uint) mod BUCKETSIZE) j) = 104)"
    using ne by (simp add: p)
  have first: "bget 1 1 104 t s7 = Panic ''do not have enough free buffer''"
  proof (rule bget_miss_panic [OF nomatch7])
    show "\<forall>j<BUFFERSIZE. refcnt (bcachebucket s7 (unat (104 :: uint) mod BUCKETSIZE) j) = 0 \<longrightarrow>
           lastuse (bcachebucket s7 (unat (104 :: uint) mod BUCKETSIZE) j) = 0xffffffff"
      using slots by (simp add: p)
  qed
  have slots8: "\<And>j. j < BUFFERSIZE \<Longrightarrow> dev (bcachebucket ?s8 0 j) = 1 \<and>
        blockno (bcachebucket ?s8 0 j) \<in> set ?bns \<and>
        refcnt (bcachebucket ?s8 0 j) = (if j = 0 then 0 else 1) \<and>
        lastuse (bcachebucket ?s8 0 j) = t \<and>
        lock (bcachebucket ?s8 0 j) = (if j = 0 then None else Some 1)"
    using slots by (simp add: bcachebucket_buf_upd)
  have nomatch8: "\<forall>j<BUFFERSIZE. \<not> (dev (bcachebucket ?s8 (unat (104 :: uint) mod BUCKETSIZE) j) = 1 \<and>
                       blockno (bcachebucket ?s8 (unat (104 :: uint) mod BUCKETSIZE) j) = 104)"
    using ne by (simp add: p bcachebucket_buf_upd)
  have second: "if t = 0xffffffff then bget 1 1 104 t ?s8 = Panic ''do not have enough free buffer''
      else \<exists>s9. bget 1 1 104 t ?s8 = Returned (s9, (0, 0))"
  proof (cases "t = 0xffffffff")
    case True
    have "bget 1 1 104 t ?s8 = Panic ''do not have enough free buffer''"
    proof (rule bget_miss_panic [OF nomatch8])
      show "\<forall>j<BUFFERSIZE. refcnt (bcachebucket ?s8 (unat (104 :: uint) mod BUCKETSIZE) j) = 0 \<longrightarrow>
           lastuse (bcachebucket ?s8 (unat (104 :: uint) mod BUCKETSIZE) j) = 0xffffffff"
        using slots8 True by (simp add: p)
    qed
    with True show ?thesis by simp
  next
    case False
    then have lt: "t < 0xffffffff"
      by (rule uint_lt_max)
    have free: "lru_free (bcachebucket ?s8 (unat (104 :: uint) mod BUCKETSIZE)) 0xffffffff 0"
      using slots8 [OF z] lt by (simp add: p lru_free_def)
    have best: "lru_best (bcachebucket ?s8 (unat (104 :: uint) mod BUCKETSIZE)) 0 0"
      using slots8 by (simp add: p lru_best_def)
    have "bget 1 1 104 t ?s8 = acquiresleep 1 (0, 0) (buf_upd (0, 0) ?f ?s8)"
      using bget_miss_at [OF nomatch8 z free best, of 1 t] by (simp add: p)
    moreover have "lock (buf_at (buf_upd (0, 0) ?f ?s8) (0, 0)) = None"
      by (simp add: buf_at_def bcachebucket_buf_upd)
    ultimately have "\<exists>s9. bget 1 1 104 t ?s8 = Returned (s9, (0, 0))"
      by (simp add: acquiresleep_def)
    with False show ?thesis by simp
  qed
  from s7 rel sc first second show ?thesis by blast
qed

lemma scenario_A_below_max:
  "t \<noteq> 0xffffffff \<Longrightarrow>
     \<exists>s9. scenario_A t = Some (Panic ''do not have enough free buffer'', Returned (s9, (0, 0)))"
  using scenario_A_outcome [of t] by auto

section \<open>Recycling in bget\<close>

lemma outcome_of_acquiresleep:
  "\<exists>s'. outcome_of (acquiresleep pid b s) = Some (s', b)"
  by (simp add: acquiresleep_def split: option.splits)

lemma example_used_eval:
  "bget 7 1 26 5 example_used =
     Returned (buf_upd (0, 3) (\<lambda>x. x\<lparr>lock := Some 7\<rparr>)
                (buf_upd (0, 3)
                   (\<lambda>b. b\<lparr>dev := 1, blockno := 26, lastuse := 5, valid := False, refcnt := 1\<rparr>)
                   example_used), (0, 3))"
  by (simp add: bget_def Let_def BUCKETSIZE_def BUFFERSIZE_def cached_loop.simps lru_loop.simps
      acquiresleep_def buf_at_def bcachebucket_buf_upd example_used_def kernel_static_def
      buf_static_def)

text \<open>
  C1. A call of \<open>bget\<close> that finds no slot of the block's bucket caching (device, block
  number). If some slot of the bucket with reference count 0 has a last use other than
  \<open>0xffffffff\<close>, the call gets a slot (it returns, or parks on the slot's sleep lock): the
  slot is in that bucket, had reference count 0, the smallest last-use value among the
  bucket's slots with reference count 0 and the lowest index among those of that value;
  afterwards it carries (device, block number), is not valid and has reference count 1.
  If every slot with reference count 0 was last used at tick \<open>0xffffffff\<close>, the call chooses
  none of them and panics: the second loop of \<open>bget\<close> starts from the bound \<open>0xffffffff\<close>
  and only takes a slot whose \<open>lastuse\<close> is strictly below it.
\<close>

theorem bget_recycles_lru:
  assumes nomatch: "\<forall>j<BUFFERSIZE. \<not> (dev (bcachebucket s (unat bn mod BUCKETSIZE) j) = d \<and>
                       blockno (bcachebucket s (unat bn mod BUCKETSIZE) j) = bn)"
  shows "((\<exists>j<BUFFERSIZE. refcnt (bcachebucket s (unat bn mod BUCKETSIZE) j) = 0 \<and>
             lastuse (bcachebucket s (unat bn mod BUCKETSIZE) j) \<noteq> 0xffffffff) \<longrightarrow>
          (\<exists>s' b. outcome_of (bget pid d bn ticks s) = Some (s', b) \<and>
             fst b = unat bn mod BUCKETSIZE \<and> snd b < BUFFERSIZE \<and>
             refcnt (buf_at s b) = 0 \<and>
             (\<forall>j<BUFFERSIZE. refcnt (bcachebucket s (fst b) j) = 0 \<longrightarrow>
                lastuse (buf_at s b) \<le> lastuse (bcachebucket s (fst b) j) \<and>
                (lastuse (bcachebucket s (fst b) j) = lastuse (buf_at s b) \<longrightarrow> snd b \<le> j)) \<and>
             dev (buf_at s' b) = d \<and> blockno (buf_at s' b) = bn \<and>
             \<not> valid (buf_at s' b) \<and> refcnt (buf_at s' b) = 1)) \<and>
         ((\<forall>j<BUFFERSIZE. refcnt (bcachebucket s (unat bn mod BUCKETSIZE) j) = 0 \<longrightarrow>
             lastuse (bcachebucket s (unat bn mod BUCKETSIZE) j) = 0xffffffff) \<longrightarrow>
          bget pid d bn ticks s = Panic ''do not have enough free buffer'')"
proof (intro conjI impI)
  let ?p = "unat bn mod BUCKETSIZE"
  let ?f = "\<lambda>b. b\<lparr>dev := d, blockno := bn, lastuse := ticks, valid := False, refcnt := 1\<rparr>"
  assume "\<exists>j<BUFFERSIZE. refcnt (bcachebucket s ?p j) = 0 \<and>
             lastuse (bcachebucket s ?p j) \<noteq> 0xffffffff"
  then obtain j where j: "j < BUFFERSIZE" "refcnt (bcachebucket s ?p j) = 0"
      "lastuse (bcachebucket s ?p j) \<noteq> 0xffffffff"
    by blast
  from j(3) have "lastuse (bcachebucket s ?p j) < 0xffffffff" by (rule uint_lt_max)
  with j(2) have "lru_free (bcachebucket s ?p) 0xffffffff j" by (simp add: lru_free_def)
  with j(1) bget_miss [OF nomatch, of pid ticks]
  obtain k where k: "k < BUFFERSIZE"
      "bget pid d bn ticks s = acquiresleep pid (?p, k) (buf_upd (?p, k) ?f s)"
    by blast
  from outcome_of_acquiresleep [of pid "(?p, k)" "buf_upd (?p, k) ?f s"] k(2)
  obtain s' where out: "outcome_of (bget pid d bn ticks s) = Some (s', (?p, k))"
    by auto
  from bget_miss_outcome [OF nomatch out]
  obtain k' where k': "k' < BUFFERSIZE" "(?p, k) = (?p, k')"
      "lru_free (bcachebucket s ?p) 0xffffffff k'" "lru_best (bcachebucket s ?p) 0 k'"
    and s': "s' = buf_upd (?p, k) ?f s \<or>
            s' = buf_upd (?p, k) (\<lambda>x. x\<lparr>lock := Some pid\<rparr>) (buf_upd (?p, k) ?f s)"
    by blast
  let ?b = "(?p, k)"
  have new: "dev (buf_at s' ?b) = d \<and> blockno (buf_at s' ?b) = bn \<and>
             \<not> valid (buf_at s' ?b) \<and> refcnt (buf_at s' ?b) = 1"
    using s' by (auto simp: buf_at_buf_upd)
  have old: "refcnt (buf_at s ?b) = 0"
    using k'(2,3) by (simp add: lru_free_def buf_at_def)
  have best: "\<forall>j<BUFFERSIZE. refcnt (bcachebucket s (fst ?b) j) = 0 \<longrightarrow>
            lastuse (buf_at s ?b) \<le> lastuse (bcachebucket s (fst ?b) j) \<and>
            (lastuse (bcachebucket s (fst ?b) j) = lastuse (buf_at s ?b) \<longrightarrow> snd ?b \<le> j)"
    using k'(2,4) by (simp add: lru_best_def buf_at_def)
  have "outcome_of (bget pid d bn ticks s) = Some (s', ?b) \<and>
             fst ?b = unat bn mod BUCKETSIZE \<and> snd ?b < BUFFERSIZE \<and>
             refcnt (buf_at s ?b) = 0 \<and>
             (\<forall>j<BUFFERSIZE. refcnt (bcachebucket s (fst ?b) j) = 0 \<longrightarrow>
                lastuse (buf_at s ?b) \<le> lastuse (bcachebucket s (fst ?b) j) \<and>
                (lastuse (bcachebucket s (fst ?b) j) = lastuse (buf_at s ?b) \<longrightarrow> snd ?b \<le> j)) \<and>
             dev (buf_at s' ?b) = d \<and> blockno (buf_at s' ?b) = bn \<and>
             \<not> valid (buf_at s' ?b) \<and> refcnt (buf_at s' ?b) = 1"
    using out k(1) new old best by simp
  then show "\<exists>s' b. outcome_of (bget pid d bn ticks s) = Some (s', b) \<and>
             fst b = unat bn mod BUCKETSIZE \<and> snd b < BUFFERSIZE \<and>
             refcnt (buf_at s b) = 0 \<and>
             (\<forall>j<BUFFERSIZE. refcnt (bcachebucket s (fst b) j) = 0 \<longrightarrow>
                lastuse (buf_at s b) \<le> lastuse (bcachebucket s (fst b) j) \<and>
                (lastuse (bcachebucket s (fst b) j) = lastuse (buf_at s b) \<longrightarrow> snd b \<le> j)) \<and>
             dev (buf_at s' b) = d \<and> blockno (buf_at s' b) = bn \<and>
             \<not> valid (buf_at s' b) \<and> refcnt (buf_at s' b) = 1"
    by blast
next
  assume "\<forall>j<BUFFERSIZE. refcnt (bcachebucket s (unat bn mod BUCKETSIZE) j) = 0 \<longrightarrow>
             lastuse (bcachebucket s (unat bn mod BUCKETSIZE) j) = 0xffffffff"
  with nomatch show "bget pid d bn ticks s = Panic ''do not have enough free buffer''"
    by (rule bget_miss_panic)
qed

theorem bget_recycles_lru_witness:
  "map_option snd (outcome_of (bget 7 1 26 5 example_used)) = Some (0, 3) \<and>
   map_option (\<lambda>(s', b). (dev (buf_at s' b), blockno (buf_at s' b), valid (buf_at s' b),
                           refcnt (buf_at s' b)))
     (outcome_of (bget 7 1 26 5 example_used)) = Some (1, 26, False, 1) \<and>
   refcnt (buf_at example_used (0, 3)) = 0 \<and> lastuse (buf_at example_used (0, 3)) = 4 \<and>
   refcnt (buf_at example_used (0, 1)) = 1 \<and> lastuse (buf_at example_used (0, 1)) = 4 \<and>
   refcnt (buf_at example_used (0, 5)) = 0 \<and> lastuse (buf_at example_used (0, 5)) = 4 \<and>
   lastuse (buf_at example_used (0, 3)) \<le> lastuse (buf_at example_used (0, 6)) \<and>
   scenario_max_lastuse 0xffffffff =
     Some (0, 0xffffffff, Panic ''do not have enough free buffer'')"
proof -
  have p26: "unat (26 :: uint) mod BUCKETSIZE = 0" by (simp add: BUCKETSIZE_def)
  have h1: "\<forall>j<BUFFERSIZE. \<not> (dev (bcachebucket example_used (unat (26 :: uint) mod BUCKETSIZE) j) = 1 \<and>
              blockno (bcachebucket example_used (unat (26 :: uint) mod BUCKETSIZE) j) = 26)"
    by (simp add: example_used_def kernel_static_def buf_static_def)
  have h2: "outcome_of (bget 7 1 26 5 example_used) =
      Some (buf_upd (0, 3) (\<lambda>x. x\<lparr>lock := Some 7\<rparr>)
                (buf_upd (0, 3)
                   (\<lambda>b. b\<lparr>dev := 1, blockno := 26, lastuse := 5, valid := False, refcnt := 1\<rparr>)
                   example_used), (0, 3))"
    by (simp add: example_used_eval)
  have h3: "(6::nat) < BUFFERSIZE" "refcnt (bcachebucket example_used 0 6) = 0"
      "lastuse (bcachebucket example_used 0 6) \<noteq> 0xffffffff"
    by (simp_all add: BUFFERSIZE_def example_used_def kernel_static_def buf_static_def)
  have used: "refcnt (buf_at example_used (0, 3)) = 0" "lastuse (buf_at example_used (0, 3)) = 4"
      "refcnt (buf_at example_used (0, 1)) = 1" "lastuse (buf_at example_used (0, 1)) = 4"
      "refcnt (buf_at example_used (0, 5)) = 0" "lastuse (buf_at example_used (0, 5)) = 4"
    by (simp_all add: buf_at_def example_used_def kernel_static_def buf_static_def)
  have ex: "\<exists>j<BUFFERSIZE. refcnt (bcachebucket example_used (unat (26 :: uint) mod BUCKETSIZE) j) = 0 \<and>
             lastuse (bcachebucket example_used (unat (26 :: uint) mod BUCKETSIZE) j) \<noteq> 0xffffffff"
    unfolding p26 using h3 by blast
  from bget_recycles_lru [OF h1, of 7 5] ex
  obtain s' b where sb: "outcome_of (bget 7 1 26 5 example_used) = Some (s', b)"
      "\<forall>j<BUFFERSIZE. refcnt (bcachebucket example_used (fst b) j) = 0 \<longrightarrow>
                lastuse (buf_at example_used b) \<le> lastuse (bcachebucket example_used (fst b) j)"
      "dev (buf_at s' b) = 1 \<and> blockno (buf_at s' b) = 26 \<and>
             \<not> valid (buf_at s' b) \<and> refcnt (buf_at s' b) = 1"
    by blast
  from sb(1) h2 have e: "b = (0, 3)" by simp
  have first: "map_option snd (outcome_of (bget 7 1 26 5 example_used)) = Some (0, 3) \<and>
     map_option (\<lambda>(s', b). (dev (buf_at s' b), blockno (buf_at s' b), valid (buf_at s' b),
                           refcnt (buf_at s' b)))
       (outcome_of (bget 7 1 26 5 example_used)) = Some (1, 26, False, 1) \<and>
     lastuse (buf_at example_used (0, 3)) \<le> lastuse (buf_at example_used (0, 6))"
    using sb(2,3) h3(1,2) unfolding sb(1) e by (simp add: buf_at_def)
  let ?bns = "[13, 26, 39, 52, 65, 78, 91] :: uint list"
  from scenario_A_held [of "0xffffffff"] obtain s7 where
    s7: "bget_all 1 1 0xffffffff ?bns (binit (kernel_static 0 (\<lambda>dv bn. []))) = Some s7"
    and slots: "\<And>j. j < BUFFERSIZE \<Longrightarrow> dev (bcachebucket s7 0 j) = 1 \<and>
        blockno (bcachebucket s7 0 j) \<in> set ?bns \<and>
        refcnt (bcachebucket s7 0 j) = 1 \<and> lastuse (bcachebucket s7 0 j) = 0xffffffff \<and>
        lock (bcachebucket s7 0 j) = Some 1"
    by blast
  let ?s8 = "buf_upd (0, 3) (\<lambda>x. x\<lparr>lock := None\<rparr>)
               (buf_upd (0, 3) (\<lambda>x. x\<lparr>refcnt := refcnt x - 1\<rparr>) s7)"
  have p: "104 mod BUCKETSIZE = 0" "unat (104 :: uint) mod BUCKETSIZE = 0"
    by (simp_all add: BUCKETSIZE_def)
  have z: "3 < BUFFERSIZE" by (simp add: BUFFERSIZE_def)
  have rel: "brelse 1 (0, 3) s7 = Returned ?s8"
    using slots [OF z] by (simp add: brelse_def holdingsleep_def buf_at_def)
  have slot3: "refcnt (buf_at ?s8 (0, 3)) = 0" "lastuse (buf_at ?s8 (0, 3)) = 0xffffffff"
    using slots [OF z] by (simp_all add: buf_at_def bcachebucket_buf_upd)
  have sc: "scenario_max_lastuse 0xffffffff =
      Some (0, 0xffffffff, bget 1 1 104 0xffffffff ?s8)"
    using s7 rel slot3 by (simp add: scenario_max_lastuse_def)
  have ne: "\<And>j. j < BUFFERSIZE \<Longrightarrow> blockno (bcachebucket s7 0 j) \<noteq> 104"
  proof -
    fix j assume "j < BUFFERSIZE"
    from slots [OF this] have "blockno (bcachebucket s7 0 j) \<in> set ?bns" by blast
    then show "blockno (bcachebucket s7 0 j) \<noteq> 104" by auto
  qed
  have nomatch8: "\<forall>j<BUFFERSIZE. \<not> (dev (bcachebucket ?s8 (unat (104 :: uint) mod BUCKETSIZE) j) = 1 \<and>
                       blockno (bcachebucket ?s8 (unat (104 :: uint) mod BUCKETSIZE) j) = 104)"
    using ne by (simp add: p bcachebucket_buf_upd)
  have all8: "\<forall>j<BUFFERSIZE. refcnt (bcachebucket ?s8 (unat (104 :: uint) mod BUCKETSIZE) j) = 0 \<longrightarrow>
           lastuse (bcachebucket ?s8 (unat (104 :: uint) mod BUCKETSIZE) j) = 0xffffffff"
    using slots by (simp add: p bcachebucket_buf_upd)
  from bget_recycles_lru [OF nomatch8, of 1 "0xffffffff"] all8
  have "bget 1 1 104 0xffffffff ?s8 = Panic ''do not have enough free buffer''"
    by blast
  with sc have second: "scenario_max_lastuse 0xffffffff =
     Some (0, 0xffffffff, Panic ''do not have enough free buffer'')"
    by simp
  from first used second show ?thesis by simp
qed

section \<open>Exhaustion of a bucket\<close>

text \<open>
  C2. Scenario A, run while the tick counter reads \<open>0xffffffff\<close>: the seven blocks are held,
  the request for an eighth block of the bucket panics; after the buffer in slot 0 has been
  released the same request panics again, although slot 0 now has reference count 0. The
  second loop of \<open>bget\<close> only takes a slot whose \<open>lastuse\<close> is strictly below its initial
  bound \<open>0xffffffff\<close>, and the released slot was last used at that very tick. (At every other
  tick the retried request returns slot 0: \<open>scenario_A_below_max\<close>.)
\<close>

theorem scenario_A_at_max_tick:
  "scenario_A 0xffffffff =
     Some (Panic ''do not have enough free buffer'', Panic ''do not have enough free buffer'')"
  using scenario_A_outcome [of "0xffffffff"] by auto

lemma acquiresleep_Returned:
  "acquiresleep pid b s = Returned (s', b') \<longleftrightarrow>
     lock (buf_at s b) = None \<and> b' = b \<and> s' = buf_upd b (\<lambda>x. x\<lparr>lock := Some pid\<rparr>) s"
  by (auto simp: acquiresleep_def split: option.splits)

lemma cached_loop_cong:
  assumes "\<forall>j<BUFFERSIZE. dev (bk j) = dev (bk' j) \<and> blockno (bk j) = blockno (bk' j)"
  shows "cached_loop bk d bn 0 = cached_loop bk' d bn 0"
proof (cases "cached_loop bk d bn 0")
  case None
  then have "cached_loop bk' d bn 0 = None"
    using assms by (simp add: cached_loop_None)
  with None show ?thesis by simp
next
  case (Some k)
  then have k: "k < BUFFERSIZE" "dev (bk k) = d" "blockno (bk k) = bn"
      "\<forall>j<k. \<not> (dev (bk j) = d \<and> blockno (bk j) = bn)"
    by (simp_all add: cached_loop_Some)
  have "\<And>j. j \<le> k \<Longrightarrow> dev (bk' j) = dev (bk j) \<and> blockno (bk' j) = blockno (bk j)"
    using assms k(1) by simp
  with k have "cached_loop bk' d bn 0 = Some k"
    by (simp add: cached_loop_Some)
  with Some show ?thesis by simp
qed

text \<open>The buffer that \<open>bget\<close> returns is the first slot of the bucket that caches the block.\<close>

lemma bget_Returned:
  assumes "bget pid d bn ticks s = Returned (s', b)"
  shows "fst b = unat bn mod BUCKETSIZE \<and> snd b < BUFFERSIZE \<and>
         cached_loop (bcachebucket s' (fst b)) d bn 0 = Some (snd b) \<and>
         lock (buf_at s' b) = Some pid \<and> disk s' = disk s \<and> ndisk_rw s' = ndisk_rw s \<and>
         (case cached_loop (bcachebucket s (fst b)) d bn 0 of
            None \<Rightarrow> \<not> valid (buf_at s' b)
          | Some k \<Rightarrow> k = snd b \<and> valid (buf_at s' b) = valid (buf_at s b) \<and>
                      data (buf_at s' b) = data (buf_at s b))"
proof (cases "cached_loop (bcachebucket s (unat bn mod BUCKETSIZE)) d bn 0")
  case None
  let ?p = "unat bn mod BUCKETSIZE"
  let ?f = "\<lambda>b. b\<lparr>dev := d, blockno := bn, lastuse := ticks, valid := False, refcnt := 1\<rparr>"
  from None have nomatch: "\<forall>j<BUFFERSIZE. \<not> (dev (bcachebucket s ?p j) = d \<and>
                       blockno (bcachebucket s ?p j) = bn)"
    by (simp add: cached_loop_None)
  from assms have out: "outcome_of (bget pid d bn ticks s) = Some (s', b)" by simp
  from bget_miss [OF nomatch, of pid ticks] assms
  obtain k where k: "k < BUFFERSIZE"
      "acquiresleep pid (?p, k) (buf_upd (?p, k) ?f s) = Returned (s', b)"
    by auto
  from k(2) have b: "b = (?p, k)"
    and s': "s' = buf_upd (?p, k) (\<lambda>x. x\<lparr>lock := Some pid\<rparr>) (buf_upd (?p, k) ?f s)"
    by (simp_all add: acquiresleep_Returned)
  have "cached_loop (bcachebucket s' ?p) d bn 0 = Some k"
    using nomatch k(1) by (simp add: cached_loop_Some s' bcachebucket_buf_upd)
  with b k(1) None show ?thesis
    by (simp add: s' buf_at_buf_upd disk_buf_upd ndisk_rw_buf_upd)
next
  case (Some k)
  let ?p = "unat bn mod BUCKETSIZE"
  let ?g = "\<lambda>b. b\<lparr>refcnt := refcnt b + 1, lastuse := ticks\<rparr>"
  from Some assms have "acquiresleep pid (?p, k) (buf_upd (?p, k) ?g s) = Returned (s', b)"
    by (simp add: bget_def Let_def)
  then have b: "b = (?p, k)"
    and s': "s' = buf_upd (?p, k) (\<lambda>x. x\<lparr>lock := Some pid\<rparr>) (buf_upd (?p, k) ?g s)"
    by (simp_all add: acquiresleep_Returned)
  have "cached_loop (bcachebucket s' ?p) d bn 0 = cached_loop (bcachebucket s ?p) d bn 0"
    by (rule cached_loop_cong) (simp add: s' bcachebucket_buf_upd)
  moreover from Some have "k < BUFFERSIZE" by (simp add: cached_loop_Some)
  ultimately show ?thesis using b Some
    by (simp add: s' buf_at_buf_upd disk_buf_upd ndisk_rw_buf_upd)
qed

text \<open>A hit on a free, valid buffer: \<open>bread\<close> returns it without a transfer.\<close>

lemma bread_cached_valid:
  assumes c: "cached_loop (bcachebucket s (unat bn mod BUCKETSIZE)) d bn 0 = Some k"
    and l: "lock (bcachebucket s (unat bn mod BUCKETSIZE) k) = None"
    and v: "valid (bcachebucket s (unat bn mod BUCKETSIZE) k)"
  shows "\<exists>s'. bread pid d bn ticks s = Returned (s', (unat bn mod BUCKETSIZE, k)) \<and>
           data (buf_at s' (unat bn mod BUCKETSIZE, k)) =
             data (bcachebucket s (unat bn mod BUCKETSIZE) k) \<and>
           valid (buf_at s' (unat bn mod BUCKETSIZE, k)) \<and>
           ndisk_rw s' = ndisk_rw s \<and> disk s' = disk s"
proof -
  let ?p = "unat bn mod BUCKETSIZE"
  let ?g = "\<lambda>b. b\<lparr>refcnt := refcnt b + 1, lastuse := ticks\<rparr>"
  let ?s' = "buf_upd (?p, k) (\<lambda>x. x\<lparr>lock := Some pid\<rparr>) (buf_upd (?p, k) ?g s)"
  have "bget pid d bn ticks s = acquiresleep pid (?p, k) (buf_upd (?p, k) ?g s)"
    using c by (simp add: bget_def Let_def)
  then have "bget pid d bn ticks s = Returned (?s', (?p, k))"
    using l by (simp add: acquiresleep_def buf_at_def bcachebucket_buf_upd)
  moreover have "valid (buf_at ?s' (?p, k))"
    using v by (simp add: buf_at_def bcachebucket_buf_upd)
  ultimately have "bread pid d bn ticks s = Returned (?s', (?p, k))"
    by (simp add: bread_def bread_fill_def)
  then show ?thesis using v
    by (simp add: buf_at_def bcachebucket_buf_upd disk_buf_upd ndisk_rw_buf_upd)
qed

lemma bread_Returned:
  assumes "bread pid d bn ticks s = Returned (s1, b)"
  shows "\<exists>s'. bget pid d bn ticks s = Returned (s', b) \<and> s1 = bread_fill b s'"
  using assms by (auto simp: bread_def split: outcome.splits)

lemma bread_fill_props:
  "valid (buf_at (bread_fill b s) b) \<and>
   dev (buf_at (bread_fill b s) c) = dev (buf_at s c) \<and>
   blockno (buf_at (bread_fill b s) c) = blockno (buf_at s c) \<and>
   lock (buf_at (bread_fill b s) c) = lock (buf_at s c) \<and>
   disk (bread_fill b s) = disk s \<and>
   (if valid (buf_at s b)
    then ndisk_rw (bread_fill b s) = ndisk_rw s \<and> data (buf_at (bread_fill b s) b) = data (buf_at s b)
    else ndisk_rw (bread_fill b s) = Suc (ndisk_rw s) \<and>
         data (buf_at (bread_fill b s) b) = disk s (dev (buf_at s b)) (blockno (buf_at s b)))"
  by (simp add: bread_fill_def virtio_disk_rw_def Let_def buf_at_buf_upd disk_buf_upd
      ndisk_rw_buf_upd buf_at_def buf_upd_def)

text \<open>
  A hit on a valid buffer that another caller holds: \<open>bread\<close> parks; once the holder has
  released the buffer, the parked caller takes the lock and returns without a transfer.
\<close>

lemma bread_held_valid:
  assumes c: "cached_loop (bcachebucket s (unat bn mod BUCKETSIZE)) d bn 0 = Some k"
    and l: "lock (bcachebucket s (unat bn mod BUCKETSIZE) k) = Some pid"
    and v: "valid (bcachebucket s (unat bn mod BUCKETSIZE) k)"
  shows "\<exists>s2. bread pid2 d bn ticks s = Parked (s2, (unat bn mod BUCKETSIZE, k)) \<and>
           (\<exists>s3. brelse pid (unat bn mod BUCKETSIZE, k) s2 = Returned s3 \<and>
              (\<exists>s4. bread_wake pid2 (unat bn mod BUCKETSIZE, k) s3 = Some s4 \<and>
                 data (buf_at s4 (unat bn mod BUCKETSIZE, k)) =
                   data (bcachebucket s (unat bn mod BUCKETSIZE) k) \<and>
                 valid (buf_at s4 (unat bn mod BUCKETSIZE, k)) \<and>
                 lock (buf_at s4 (unat bn mod BUCKETSIZE, k)) = Some pid2 \<and>
                 ndisk_rw s4 = ndisk_rw s \<and> disk s4 = disk s))"
proof -
  let ?b = "(unat bn mod BUCKETSIZE, k)"
  let ?s2 = "buf_upd ?b (\<lambda>b. b\<lparr>refcnt := refcnt b + 1, lastuse := ticks\<rparr>) s"
  let ?s3 = "buf_upd ?b (\<lambda>x. x\<lparr>lock := None\<rparr>)
               (buf_upd ?b (\<lambda>x. x\<lparr>refcnt := refcnt x - 1\<rparr>) ?s2)"
  let ?s4 = "buf_upd ?b (\<lambda>x. x\<lparr>lock := Some pid2\<rparr>) ?s3"
  have "bget pid2 d bn ticks s = acquiresleep pid2 ?b ?s2"
    using c by (simp add: bget_def Let_def)
  then have "bget pid2 d bn ticks s = Parked (?s2, ?b)"
    using l by (simp add: acquiresleep_def buf_at_def bcachebucket_buf_upd)
  then have 1: "bread pid2 d bn ticks s = Parked (?s2, ?b)"
    by (simp add: bread_def)
  have 2: "brelse pid ?b ?s2 = Returned ?s3"
    using l by (simp add: brelse_def holdingsleep_def buf_at_def bcachebucket_buf_upd)
  have "bget_wake pid2 ?b ?s3 = Some ?s4"
    by (simp add: bget_wake_def buf_at_def bcachebucket_buf_upd)
  moreover have "valid (buf_at ?s4 ?b)"
    using v by (simp add: buf_at_def bcachebucket_buf_upd)
  ultimately have 3: "bread_wake pid2 ?b ?s3 = Some ?s4"
    by (simp add: bread_wake_def bread_fill_def)
  have 4: "data (buf_at ?s4 ?b) = data (bcachebucket s (unat bn mod BUCKETSIZE) k) \<and>
           valid (buf_at ?s4 ?b) \<and> lock (buf_at ?s4 ?b) = Some pid2 \<and>
           ndisk_rw ?s4 = ndisk_rw s \<and> disk ?s4 = disk s"
    using v by (simp add: buf_at_def bcachebucket_buf_upd disk_buf_upd ndisk_rw_buf_upd)
  from 1 2 3 4 show ?thesis by blast
qed

section \<open>Reading a block twice\<close>

text \<open>
  C8. When \<open>bread(dev, blockno)\<close> has returned a buffer, the buffer is valid; the call has
  made a device transfer only if the block was not cached in a valid buffer, and then the
  payload is the block on the device. Once the reader has released the buffer, a second
  \<open>bread(dev, blockno)\<close>, by any process at any tick, returns the same buffer with the same
  payload and makes no device transfer. A second \<open>bread(dev, blockno)\<close> that comes before
  the release parks on the buffer's sleep lock; when the reader has released the buffer, the
  parked call takes the lock and returns the same buffer, with the same payload and without a
  device transfer.
\<close>

theorem bread_twice:
  assumes r1: "bread pid d bn t1 s = Returned (s1, b)"
  shows "valid (buf_at s1 b) \<and>
         (if dev (buf_at s b) = d \<and> blockno (buf_at s b) = bn \<and> valid (buf_at s b)
          then ndisk_rw s1 = ndisk_rw s \<and> data (buf_at s1 b) = data (buf_at s b)
          else ndisk_rw s1 = Suc (ndisk_rw s) \<and> data (buf_at s1 b) = disk s d bn) \<and>
         (\<exists>s2. brelse pid b s1 = Returned s2 \<and>
            (\<exists>s3. bread pid2 d bn t2 s2 = Returned (s3, b) \<and>
                  data (buf_at s3 b) = data (buf_at s1 b) \<and> valid (buf_at s3 b) \<and>
                  ndisk_rw s3 = ndisk_rw s1 \<and> disk s3 = disk s1)) \<and>
         (\<exists>s2. bread pid2 d bn t2 s1 = Parked (s2, b) \<and>
            (\<exists>s3. brelse pid b s2 = Returned s3 \<and>
               (\<exists>s4. bread_wake pid2 b s3 = Some s4 \<and>
                  data (buf_at s4 b) = data (buf_at s1 b) \<and> valid (buf_at s4 b) \<and>
                  lock (buf_at s4 b) = Some pid2 \<and>
                  ndisk_rw s4 = ndisk_rw s1 \<and> disk s4 = disk s1)))"
proof -
  let ?p = "unat bn mod BUCKETSIZE"
  from bread_Returned [OF r1] obtain s' where
    g: "bget pid d bn t1 s = Returned (s', b)" and s1: "s1 = bread_fill b s'"
    by blast
  note R = bget_Returned [OF g]
  have b: "fst b = ?p" "snd b < BUFFERSIZE"
    using R by blast+
  have c': "cached_loop (bcachebucket s' ?p) d bn 0 = Some (snd b)"
    and l': "lock (buf_at s' b) = Some pid"
    and d': "disk s' = disk s" "ndisk_rw s' = ndisk_rw s"
    and before: "case cached_loop (bcachebucket s ?p) d bn 0 of
            None \<Rightarrow> \<not> valid (buf_at s' b)
          | Some k \<Rightarrow> k = snd b \<and> valid (buf_at s' b) = valid (buf_at s b) \<and>
                      data (buf_at s' b) = data (buf_at s b)"
    using R unfolding b(1) by blast+
  have bp: "b = (?p, snd b)" using b(1) by (cases b) simp
  have id': "dev (buf_at s' b) = d" "blockno (buf_at s' b) = bn"
    using c' b(1) by (simp_all add: cached_loop_Some buf_at_def)
  note fill = bread_fill_props [of b s']
  have v1: "valid (buf_at s1 b)" using fill by (simp add: s1)
  have first: "if dev (buf_at s b) = d \<and> blockno (buf_at s b) = bn \<and> valid (buf_at s b)
          then ndisk_rw s1 = ndisk_rw s \<and> data (buf_at s1 b) = data (buf_at s b)
          else ndisk_rw s1 = Suc (ndisk_rw s) \<and> data (buf_at s1 b) = disk s d bn"
  proof (cases "cached_loop (bcachebucket s ?p) d bn 0")
    case None
    then have "\<not> (dev (buf_at s b) = d \<and> blockno (buf_at s b) = bn)"
      using b by (simp add: cached_loop_None buf_at_def)
    moreover from None before have "\<not> valid (buf_at s' b)" by simp
    ultimately show ?thesis using fill [of b] id' d' by (auto simp: s1)
  next
    case (Some k)
    with before have k: "k = snd b" "valid (buf_at s' b) = valid (buf_at s b)"
        "data (buf_at s' b) = data (buf_at s b)"
      by simp_all
    from Some k(1) b(1) have "dev (buf_at s b) = d \<and> blockno (buf_at s b) = bn"
      by (simp add: cached_loop_Some buf_at_def)
    then show ?thesis using fill [of b] id' d' k(2,3) by (auto simp: s1)
  qed
  let ?s2 = "buf_upd b (\<lambda>x. x\<lparr>lock := None\<rparr>) (buf_upd b (\<lambda>x. x\<lparr>refcnt := refcnt x - 1\<rparr>) s1)"
  have l1: "lock (buf_at s1 b) = Some pid"
    using bread_fill_props [of b s' b] l' by (simp add: s1)
  then have rel: "brelse pid b s1 = Returned ?s2"
    by (simp add: brelse_def holdingsleep_def)
  have same: "\<forall>j<BUFFERSIZE. dev (bcachebucket ?s2 ?p j) = dev (bcachebucket s' ?p j) \<and>
                blockno (bcachebucket ?s2 ?p j) = blockno (bcachebucket s' ?p j)"
  proof (intro allI impI)
    fix j
    from bread_fill_props [of b s' "(?p, j)"]
    have "dev (bcachebucket s1 ?p j) = dev (bcachebucket s' ?p j) \<and>
          blockno (bcachebucket s1 ?p j) = blockno (bcachebucket s' ?p j)"
      by (simp add: s1 buf_at_def)
    then show "dev (bcachebucket ?s2 ?p j) = dev (bcachebucket s' ?p j) \<and>
                blockno (bcachebucket ?s2 ?p j) = blockno (bcachebucket s' ?p j)"
      by (auto simp: bcachebucket_buf_upd)
  qed
  have c2: "cached_loop (bcachebucket ?s2 ?p) d bn 0 = Some (snd b)"
    using cached_loop_cong [OF same, of d bn] c' by simp
  have l2: "lock (bcachebucket ?s2 ?p (snd b)) = None"
    using b(1) by (simp add: bcachebucket_buf_upd)
  have v2: "valid (bcachebucket ?s2 ?p (snd b))"
    using v1 b(1) by (simp add: bcachebucket_buf_upd buf_at_def)
  from bread_cached_valid [OF c2 l2 v2, of pid2 t2]
  obtain s3 where s3: "bread pid2 d bn t2 ?s2 = Returned (s3, (?p, snd b))"
      "data (buf_at s3 (?p, snd b)) = data (bcachebucket ?s2 ?p (snd b))"
      "valid (buf_at s3 (?p, snd b))" "ndisk_rw s3 = ndisk_rw ?s2" "disk s3 = disk ?s2"
    by blast
  have "data (bcachebucket ?s2 ?p (snd b)) = data (buf_at s1 b)"
    using b(1) by (simp add: bcachebucket_buf_upd buf_at_def)
  with s3 bp have "bread pid2 d bn t2 ?s2 = Returned (s3, b) \<and>
      data (buf_at s3 b) = data (buf_at s1 b) \<and> valid (buf_at s3 b) \<and>
      ndisk_rw s3 = ndisk_rw s1 \<and> disk s3 = disk s1"
    by (simp add: disk_buf_upd ndisk_rw_buf_upd)
  with rel have released: "\<exists>s2. brelse pid b s1 = Returned s2 \<and>
            (\<exists>s3. bread pid2 d bn t2 s2 = Returned (s3, b) \<and>
                  data (buf_at s3 b) = data (buf_at s1 b) \<and> valid (buf_at s3 b) \<and>
                  ndisk_rw s3 = ndisk_rw s1 \<and> disk s3 = disk s1)"
    by blast
  have same1: "\<forall>j<BUFFERSIZE. dev (bcachebucket s1 ?p j) = dev (bcachebucket s' ?p j) \<and>
                blockno (bcachebucket s1 ?p j) = blockno (bcachebucket s' ?p j)"
  proof (intro allI impI)
    fix j
    from bread_fill_props [of b s' "(?p, j)"]
    show "dev (bcachebucket s1 ?p j) = dev (bcachebucket s' ?p j) \<and>
          blockno (bcachebucket s1 ?p j) = blockno (bcachebucket s' ?p j)"
      by (simp add: s1 buf_at_def)
  qed
  have c1: "cached_loop (bcachebucket s1 ?p) d bn 0 = Some (snd b)"
    using cached_loop_cong [OF same1, of d bn] c' by simp
  have l1': "lock (bcachebucket s1 ?p (snd b)) = Some pid"
    using l1 b(1) by (simp add: buf_at_def)
  have v1': "valid (bcachebucket s1 ?p (snd b))"
    using v1 b(1) by (simp add: buf_at_def)
  have d1: "data (bcachebucket s1 ?p (snd b)) = data (buf_at s1 b)"
    using b(1) by (simp add: buf_at_def)
  from bread_held_valid [OF c1 l1' v1', of pid2 t2]
  have parked: "\<exists>s2. bread pid2 d bn t2 s1 = Parked (s2, b) \<and>
            (\<exists>s3. brelse pid b s2 = Returned s3 \<and>
               (\<exists>s4. bread_wake pid2 b s3 = Some s4 \<and>
                  data (buf_at s4 b) = data (buf_at s1 b) \<and> valid (buf_at s4 b) \<and>
                  lock (buf_at s4 b) = Some pid2 \<and>
                  ndisk_rw s4 = ndisk_rw s1 \<and> disk s4 = disk s1))"
    unfolding d1 bp [symmetric] .
  from v1 first released parked show ?thesis by (intro conjI)
qed

theorem bread_twice_witness:
  "bread 7 1 13 5 example_cache = Returned (bread_fill (0, 2) example_recycled, (0, 2)) \<and>
   valid (buf_at (bread_fill (0, 2) example_recycled) (0, 2)) \<and>
   ndisk_rw (bread_fill (0, 2) example_recycled) = 1 \<and>
   (\<exists>s2. brelse 7 (0, 2) (bread_fill (0, 2) example_recycled) = Returned s2 \<and>
      (\<exists>s3. bread 8 1 13 6 s2 = Returned (s3, (0, 2)) \<and>
            data (buf_at s3 (0, 2)) = data (buf_at (bread_fill (0, 2) example_recycled) (0, 2)) \<and>
            ndisk_rw s3 = 1))"
proof -
  have h: "bread 7 1 13 5 example_cache = Returned (bread_fill (0, 2) example_recycled, (0, 2))"
    by (simp add: bread_def example_eval example_recycled_def)
  have n: "\<not> (dev (buf_at example_cache (0, 2)) = 1 \<and> blockno (buf_at example_cache (0, 2)) = 13 \<and>
              valid (buf_at example_cache (0, 2)))"
      "ndisk_rw example_cache = 0"
    by (simp_all add: example_cache_def buf_at_def bcachebucket_buf_upd ndisk_rw_buf_upd
        kernel_static_def buf_static_def)
  from bread_twice [OF h, of 8 6] n h show ?thesis by auto
qed

lemma ident_inv_same:
  assumes "ident_inv s" "\<And>c. ident s' c = ident s c"
  shows "ident_inv s'"
  using assms by (simp add: ident_inv_def)

lemma ident_buf_upd:
  "ident (buf_upd b f s) c =
     (if c = b then (dev (f (buf_at s b)), blockno (f (buf_at s b))) else ident s c)"
  by (simp add: ident_def buf_at_buf_upd)

lemma ident_inv_recycle:
  assumes inv: "ident_inv s"
    and nomatch: "\<forall>j<BUFFERSIZE. ident s (unat bn mod BUCKETSIZE, j) \<noteq> (d, bn)"
    and b: "fst b = unat bn mod BUCKETSIZE"
    and new: "\<And>c. ident s' c = (if c = b then (d, bn) else ident s c)"
  shows "ident_inv s'"
  unfolding ident_inv_def
proof (intro allI impI)
  fix c assume c: "in_cache c"
  show "ident s' c = (0, 0) \<or>
        (unat (snd (ident s' c)) mod BUCKETSIZE = fst c \<and>
         (\<forall>j<BUFFERSIZE. ident s' (fst c, j) = ident s' c \<longrightarrow> j = snd c))"
  proof (cases "c = b")
    case True
    have "\<forall>j<BUFFERSIZE. ident s' (fst c, j) = ident s' c \<longrightarrow> j = snd c"
    proof (intro allI impI)
      fix j assume j: "j < BUFFERSIZE" "ident s' (fst c, j) = ident s' c"
      show "j = snd c"
      proof (rule ccontr)
        assume "j \<noteq> snd c"
        then have "(fst c, j) \<noteq> b" using True by (metis snd_conv)
        with j(2) True new have "ident s (fst b, j) = (d, bn)" by simp
        with nomatch j(1) b show False by simp
      qed
    qed
    with True new b show ?thesis by simp
  next
    case False
    then have same: "ident s' c = ident s c" using new by simp
    from inv c consider "ident s c = (0, 0)"
      | "unat (snd (ident s c)) mod BUCKETSIZE = fst c"
        "\<forall>j<BUFFERSIZE. ident s (fst c, j) = ident s c \<longrightarrow> j = snd c"
      unfolding ident_inv_def by blast
    then show ?thesis
    proof cases
      case 1
      with same show ?thesis by simp
    next
      case 2
      have "\<forall>j<BUFFERSIZE. ident s' (fst c, j) = ident s' c \<longrightarrow> j = snd c"
      proof (intro allI impI)
        fix j assume j: "j < BUFFERSIZE" "ident s' (fst c, j) = ident s' c"
        show "j = snd c"
        proof (cases "(fst c, j) = b")
          case True
          with j(2) new same have "ident s c = (d, bn)" by simp
          moreover from True b have "fst c = unat bn mod BUCKETSIZE" by auto
          moreover from c have "snd c < BUFFERSIZE" by (simp add: in_cache_def)
          ultimately show ?thesis using nomatch by (metis prod.collapse)
        next
          case False
          with j(2) new same have "ident s (fst c, j) = ident s c" by simp
          with 2(2) j(1) show ?thesis by blast
        qed
      qed
      with 2(1) same show ?thesis by simp
    qed
  qed
qed

lemma bget_ident_inv:
  assumes inv: "ident_inv s" and out: "outcome_of (bget pid d bn ticks s) = Some (s', b)"
  shows "ident_inv s'"
proof (cases "cached_loop (bcachebucket s (unat bn mod BUCKETSIZE)) d bn 0")
  case None
  let ?p = "unat bn mod BUCKETSIZE"
  from None have nomatch: "\<forall>j<BUFFERSIZE. \<not> (dev (bcachebucket s ?p j) = d \<and>
                       blockno (bcachebucket s ?p j) = bn)"
    by (simp add: cached_loop_None)
  then have nm: "\<forall>j<BUFFERSIZE. ident s (?p, j) \<noteq> (d, bn)"
    by (simp add: ident_def buf_at_def)
  from bget_miss_outcome [OF nomatch out]
  obtain k where k: "b = (?p, k)"
    and s': "s' = buf_upd b
                   (\<lambda>b. b\<lparr>dev := d, blockno := bn, lastuse := ticks, valid := False,
                           refcnt := 1\<rparr>) s \<or>
            s' = buf_upd b (\<lambda>x. x\<lparr>lock := Some pid\<rparr>)
                   (buf_upd b
                      (\<lambda>b. b\<lparr>dev := d, blockno := bn, lastuse := ticks, valid := False,
                              refcnt := 1\<rparr>) s)"
    by blast
  have b: "fst b = ?p" using k by simp
  have new: "\<And>c. ident s' c = (if c = b then (d, bn) else ident s c)"
    using s' by (auto simp: ident_def buf_at_buf_upd)
  from ident_inv_recycle [OF inv nm b new] show ?thesis .
next
  case (Some k)
  let ?p = "unat bn mod BUCKETSIZE"
  let ?g = "\<lambda>b. b\<lparr>refcnt := refcnt b + 1, lastuse := ticks\<rparr>"
  from Some have "bget pid d bn ticks s = acquiresleep pid (?p, k) (buf_upd (?p, k) ?g s)"
    by (simp add: bget_def Let_def)
  with out acquiresleep_outcome [of pid "(?p, k)" "buf_upd (?p, k) ?g s" s' b]
  have "\<And>c. ident s' c = ident s c"
    by (auto simp: ident_def buf_at_buf_upd)
  with inv show ?thesis by (rule ident_inv_same)
qed

lemma bget_wake_ident: "bget_wake pid b s = Some s' \<Longrightarrow> ident s' c = ident s c"
  by (auto simp: bget_wake_def ident_def buf_at_buf_upd split: option.splits)

lemma bread_fill_ident: "ident (bread_fill b s) c = ident s c"
  using bread_fill_props [of b s c] by (simp add: ident_def)

lemma breach_ident_inv: "breach s \<Longrightarrow> ident_inv s"
proof (induction rule: breach.induct)
  case (init BSIZE d)
  show ?case
    unfolding binit_static
    by (simp add: ident_inv_def ident_def buf_at_def kernel_static_def buf_static_def)
next
  case (bget s pid dv bn ticks s' b)
  then show ?case by (blast intro: bget_ident_inv)
next
  case (bget_wake s b pid s')
  then show ?case by (blast intro: ident_inv_same bget_wake_ident)
next
  case (bread s pid dv bn ticks s' b)
  show ?case
  proof (cases "bget pid dv bn ticks s")
    case (Panic m)
    with bread.hyps(2) show ?thesis by (simp add: bread_def)
  next
    case (Parked x)
    with bread.hyps(2) have "outcome_of (bget pid dv bn ticks s) = Some (s', b)"
      by (simp add: bread_def)
    with bread.IH show ?thesis by (rule bget_ident_inv)
  next
    case (Returned x)
    obtain s1 b1 where x: "x = (s1, b1)" by (cases x)
    with Returned have "outcome_of (bget pid dv bn ticks s) = Some (s1, b1)" by simp
    with bread.IH have "ident_inv s1" by (rule bget_ident_inv)
    moreover from Returned x bread.hyps(2) have "s' = bread_fill b1 s1"
      by (auto simp: bread_def)
    ultimately show ?thesis by (simp add: ident_inv_same bread_fill_ident)
  qed
next
  case (bread_wake s b pid s')
  then obtain s1 where "bget_wake pid b s = Some s1" "s' = bread_fill b s1"
    by (auto simp: bread_wake_def)
  with bread_wake.IH show ?case
    by (simp add: ident_inv_same bread_fill_ident bget_wake_ident)
next
  case (bwrite s b pid s')
  then have "\<And>c. ident s' c = ident s c"
    by (auto simp: bwrite_def virtio_disk_rw_def Let_def ident_def buf_at_def
        split: if_splits)
  with bwrite.IH show ?case by (rule ident_inv_same)
next
  case (brelse s b pid s')
  then have "\<And>c. ident s' c = ident s c"
    by (auto simp: brelse_def ident_def buf_at_buf_upd split: if_splits)
  with brelse.IH show ?case by (rule ident_inv_same)
next
  case (bpin s b)
  then show ?case
    by (auto intro!: ident_inv_same [of s] simp: bpin_def ident_def buf_at_buf_upd)
next
  case (bunpin s b)
  then show ?case
    by (auto intro!: ident_inv_same [of s] simp: bunpin_def ident_def buf_at_buf_upd)
qed

section \<open>Uniqueness of identities\<close>

text \<open>
  C7. In every state reachable from the initialised cache by \<open>bget\<close>, \<open>bread\<close>, \<open>bwrite\<close>,
  \<open>brelse\<close>, \<open>bpin\<close> and \<open>bunpin\<close> (calls that return, calls that park on a sleep lock, and
  their resumption), two slots of the cache that carry the same (device, block number) pair
  other than (0, 0) are the same slot, and that slot lies in the bucket the block number
  selects.
\<close>

theorem identity_unique:
  assumes "breach s" "in_cache b" "in_cache c"
    and "dev (buf_at s b) = dev (buf_at s c)" "blockno (buf_at s b) = blockno (buf_at s c)"
    and "\<not> (dev (buf_at s b) = 0 \<and> blockno (buf_at s b) = 0)"
  shows "b = c \<and> fst b = unat (blockno (buf_at s b)) mod BUCKETSIZE"
proof -
  from assms(1) have inv: "ident_inv s" by (rule breach_ident_inv)
  have same: "ident s c = ident s b" using assms(4,5) by (simp add: ident_def)
  have nz: "ident s b \<noteq> (0, 0)" using assms(6) by (simp add: ident_def)
  from inv assms(2) nz have b: "unat (snd (ident s b)) mod BUCKETSIZE = fst b"
      "\<forall>j<BUFFERSIZE. ident s (fst b, j) = ident s b \<longrightarrow> j = snd b"
    unfolding ident_inv_def by blast+
  from inv assms(3) nz same have c: "unat (snd (ident s b)) mod BUCKETSIZE = fst c"
    unfolding ident_inv_def by fastforce
  from b(1) c have f: "fst c = fst b" by simp
  moreover have "snd c < BUFFERSIZE" using assms(3) by (simp add: in_cache_def)
  moreover have "ident s (fst b, snd c) = ident s b" using same f by (metis prod.collapse)
  ultimately have "snd c = snd b" using b(2) by blast
  with f have "b = c" by (simp add: prod_eq_iff)
  with b(1) show ?thesis by (simp add: ident_def)
qed

text \<open>
  The pair (0, 0) is excluded: after \<open>binit\<close> every slot carries it, since the static storage
  is zeroed and \<open>binit\<close> writes neither \<open>dev\<close> nor \<open>blockno\<close>.
\<close>

theorem identity_unique_counterexample:
  "breach (binit (kernel_static 0 (\<lambda>dv bn. []))) \<and> in_cache (0, 0) \<and> in_cache (0, 1) \<and>
   dev (buf_at (binit (kernel_static 0 (\<lambda>dv bn. []))) (0, 0)) =
     dev (buf_at (binit (kernel_static 0 (\<lambda>dv bn. []))) (0, 1)) \<and>
   blockno (buf_at (binit (kernel_static 0 (\<lambda>dv bn. []))) (0, 0)) =
     blockno (buf_at (binit (kernel_static 0 (\<lambda>dv bn. []))) (0, 1)) \<and>
   (0 :: nat, 0 :: nat) \<noteq> (0, 1)"
proof -
  have r: "breach (binit (kernel_static 0 (\<lambda>dv bn. [])))" by (rule breach.init)
  have c: "in_cache (0, 0)" "in_cache (0, 1)"
    by (simp_all add: in_cache_def BUCKETSIZE_def BUFFERSIZE_def)
  have e: "buf_at (binit (kernel_static 0 (\<lambda>dv bn. []))) (0, 0) =
           buf_at (binit (kernel_static 0 (\<lambda>dv bn. []))) (0, 1)"
    unfolding binit_static by (simp add: buf_at_def kernel_static_def)
  from r c e show ?thesis by simp
qed

lemma example_first_eval:
  "bget 7 1 13 5 (binit (kernel_static 0 (\<lambda>dv bn. []))) = Returned (example_first, (0, 0))"
  unfolding example_first_def binit_static
  by (simp add: bget_def Let_def BUCKETSIZE_def BUFFERSIZE_def cached_loop.simps lru_loop.simps
      acquiresleep_def buf_at_def bcachebucket_buf_upd kernel_static_def buf_static_def)

theorem identity_unique_witness:
  "breach example_first \<and> in_cache (0, 0) \<and>
   dev (buf_at example_first (0, 0)) = 1 \<and> blockno (buf_at example_first (0, 0)) = 13 \<and>
   fst (0 :: nat, 0 :: nat) = unat (blockno (buf_at example_first (0, 0))) mod BUCKETSIZE"
proof -
  have "outcome_of (bget 7 1 13 5 (binit (kernel_static 0 (\<lambda>dv bn. [])))) =
          Some (example_first, (0, 0))"
    by (simp add: example_first_eval)
  with breach.init have r: "breach example_first" by (rule breach.bget)
  have c: "in_cache (0, 0)" by (simp add: in_cache_def BUCKETSIZE_def BUFFERSIZE_def)
  have i: "dev (buf_at example_first (0, 0)) = 1" "blockno (buf_at example_first (0, 0)) = 13"
    by (simp_all add: example_first_def buf_at_buf_upd)
  have "\<not> (dev (buf_at example_first (0, 0)) = 0 \<and> blockno (buf_at example_first (0, 0)) = 0)"
    by (simp add: i)
  from identity_unique [OF r c c refl refl this] r c i show ?thesis by simp
qed

section \<open>The allocator: stealing\<close>

lemma steal_loop_none:
  "\<forall>j. i \<le> j \<and> j < NCPU \<longrightarrow> kmem s ((cpu + j) mod NCPU) = 0 \<Longrightarrow> steal_loop cpu i s = (0, s)"
proof (induction cpu i s rule: steal_loop.induct)
  case (1 cpu i s)
  show ?case
  proof (cases "i < NCPU")
    case False
    then show ?thesis by (simp add: steal_loop.simps [of cpu i s])
  next
    case True
    with "1.prems" have z: "kmem s ((cpu + i) mod NCPU) = 0" by simp
    from "1.prems" have "\<forall>j. Suc i \<le> j \<and> j < NCPU \<longrightarrow> kmem s ((cpu + j) mod NCPU) = 0"
      by simp
    with "1.IH" [OF True refl refl] z have "steal_loop cpu (Suc i) s = (0, s)" by simp
    with True z show ?thesis by (simp add: steal_loop.simps [of cpu i s])
  qed
qed

lemma steal_loop_found:
  "i \<le> k \<Longrightarrow> k < NCPU \<Longrightarrow> \<forall>j. i \<le> j \<and> j < k \<longrightarrow> kmem s ((cpu + j) mod NCPU) = 0 \<Longrightarrow>
   kmem s ((cpu + k) mod NCPU) \<noteq> 0 \<Longrightarrow>
   steal_loop cpu i s =
     (kmem s ((cpu + k) mod NCPU),
      s\<lparr>kmem := (kmem s)((cpu + k) mod NCPU := run_next s (kmem s ((cpu + k) mod NCPU)))\<rparr>)"
proof (induction cpu i s rule: steal_loop.induct)
  case (1 cpu i s)
  from "1.prems"(1,2) have lt: "i < NCPU" by simp
  show ?case
  proof (cases "i = k")
    case True
    with "1.prems"(4) lt show ?thesis by (subst steal_loop.simps) (simp add: Let_def)
  next
    case False
    with "1.prems"(1) have ik: "i < k" "Suc i \<le> k" by simp_all
    with "1.prems"(3) have z: "kmem s ((cpu + i) mod NCPU) = 0" by simp
    from "1.prems"(3) have "\<forall>j. Suc i \<le> j \<and> j < k \<longrightarrow> kmem s ((cpu + j) mod NCPU) = 0"
      by simp
    with "1.IH" [OF lt refl refl _ ik(2) "1.prems"(2) _ "1.prems"(4)] z
    have rec: "steal_loop cpu (Suc i) s =
     (kmem s ((cpu + k) mod NCPU),
      s\<lparr>kmem := (kmem s)((cpu + k) mod NCPU := run_next s (kmem s ((cpu + k) mod NCPU)))\<rparr>)"
      by blast
    have step: "steal_loop cpu i s = steal_loop cpu (Suc i) s"
      using lt z by (subst steal_loop.simps) (simp add: Let_def)
    show ?thesis unfolding step by (rule rec)
  qed
qed

text \<open>The two ways \<open>kalloc\<close> can end: no memory, or a page popped from pool \<open>v\<close>.\<close>

lemma kalloc_own:
  "kmem s cpu \<noteq> 0 \<Longrightarrow> kalloc cpu s = pop_page cpu s"
  by (simp add: kalloc_def pop_page_def Let_def)

lemma kalloc_none:
  "kmem s cpu = 0 \<Longrightarrow> \<forall>j. 1 \<le> j \<and> j < NCPU \<longrightarrow> kmem s ((cpu + j) mod NCPU) = 0 \<Longrightarrow>
   kalloc cpu s = (0, s)"
  using steal_loop_none [of 1 s cpu] by (simp add: kalloc_def Let_def)

lemma kalloc_steal:
  assumes "kmem s cpu = 0" "1 \<le> k" "k < NCPU"
    "\<forall>j. 1 \<le> j \<and> j < k \<longrightarrow> kmem s ((cpu + j) mod NCPU) = 0"
    "kmem s ((cpu + k) mod NCPU) \<noteq> 0"
  shows "kalloc cpu s = pop_page ((cpu + k) mod NCPU) s"
  using steal_loop_found [OF assms(2,3,4,5)] assms(1,5)
  by (simp add: kalloc_def pop_page_def Let_def)

lemma kalloc_cases:
  assumes "cpu < NCPU"
  shows "kalloc cpu s = (0, s) \<or> (\<exists>v<NCPU. kmem s v \<noteq> 0 \<and> kalloc cpu s = pop_page v s)"
proof (cases "kmem s cpu = 0")
  case False
  with assms kalloc_own [of s cpu] show ?thesis by blast
next
  case own: True
  let ?P = "\<lambda>k. 1 \<le> k \<and> k < NCPU \<and> kmem s ((cpu + k) mod NCPU) \<noteq> 0"
  show ?thesis
  proof (cases "\<exists>k. ?P k")
    case False
    then have "\<forall>j. 1 \<le> j \<and> j < NCPU \<longrightarrow> kmem s ((cpu + j) mod NCPU) = 0" by blast
    with own show ?thesis by (simp add: kalloc_none)
  next
    case True
    define k where "k = (LEAST k. ?P k)"
    from True have k: "?P k" unfolding k_def by (rule LeastI_ex)
    have "\<forall>j. 1 \<le> j \<and> j < k \<longrightarrow> kmem s ((cpu + j) mod NCPU) = 0"
    proof (intro allI impI)
      fix j assume j: "1 \<le> j \<and> j < k"
      then have "\<not> ?P j" unfolding k_def using not_less_Least by blast
      with j k show "kmem s ((cpu + j) mod NCPU) = 0" by simp
    qed
    with own k have "kalloc cpu s = pop_page ((cpu + k) mod NCPU) s"
      by (simp add: kalloc_steal)
    moreover have "(cpu + k) mod NCPU < NCPU" by (simp add: NCPU_def)
    ultimately show ?thesis using k by blast
  qed
qed

section \<open>Free lists in memory\<close>

lemma islist_upd: "x \<notin> set xs \<Longrightarrow> islist (nxt(x := v)) h xs = islist nxt h xs"
  by (induction xs arbitrary: h) auto

lemma islist_unique: "islist nxt h xs \<Longrightarrow> islist nxt h ys \<Longrightarrow> xs = ys"
proof (induction xs arbitrary: h ys)
  case Nil
  then show ?case by (cases ys) auto
next
  case (Cons x xs)
  then show ?case by (cases ys) auto
qed

lemma islist_suffix: "islist nxt h (as @ x # bs) \<Longrightarrow> islist nxt (nxt x) bs"
  by (induction as arbitrary: h) auto

lemma islist_hd_notin:
  assumes "islist nxt h (x # xs)"
  shows "x \<notin> set xs"
proof
  assume "x \<in> set xs"
  then obtain as bs where xs: "xs = as @ x # bs" by (auto dest: split_list)
  from assms have t: "islist nxt (nxt x) xs" by simp
  with xs have "islist nxt (nxt x) bs" by (auto dest: islist_suffix)
  with t have "xs = bs" by (rule islist_unique)
  with xs show False by simp
qed

lemma islist_distinct: "islist nxt h xs \<Longrightarrow> distinct xs"
proof (induction xs arbitrary: h)
  case Nil
  show ?case by simp
next
  case (Cons x xs)
  from Cons.prems have "x \<notin> set xs" by (rule islist_hd_notin)
  moreover from Cons.prems have "islist nxt (nxt x) xs" by simp
  then have "distinct xs" by (rule Cons.IH)
  ultimately show ?case by simp
qed

lemma islist_on_freelist:
  "islist nxt h xs \<Longrightarrow> on_freelist nxt h pa \<longleftrightarrow> pa \<in> set xs"
proof
  assume l: "islist nxt h xs" and o: "on_freelist nxt h pa"
  from o l show "pa \<in> set xs"
  proof (induction arbitrary: xs rule: on_freelist.induct)
    case (here h)
    then show ?case by (cases xs) auto
  next
    case (there h pa)
    then show ?case by (cases xs) auto
  qed
next
  assume "islist nxt h xs" and "pa \<in> set xs"
  then show "on_freelist nxt h pa"
  proof (induction xs arbitrary: h)
    case Nil
    then show ?case by simp
  next
    case (Cons x xs)
    show ?case
    proof (cases "pa = x")
      case True
      with Cons.prems(1) show ?thesis by (auto intro: on_freelist.here)
    next
      case False
      with Cons.prems have "on_freelist nxt (nxt x) pa" by (auto intro: Cons.IH)
      with Cons.prems(1) show ?thesis by (auto intro: on_freelist.there)
    qed
  qed
qed

section \<open>Stealing in kalloc\<close>

text \<open>
  C3. When \<open>kalloc\<close> runs on processor \<open>cpu\<close> whose own free list is empty, it visits the
  pools \<open>(cpu + 1) mod NCPU\<close>, \<open>(cpu + 2) mod NCPU\<close>, ... in this order: if pool
  \<open>(cpu + k) mod NCPU\<close> is the first that is not empty, \<open>kalloc\<close> returns the head of that
  pool, the pool's head becomes the page after it (exactly one page is popped: for a list of
  page-aligned pages, the list that is left is the tail of the list before), and every other
  pool's head is unchanged. If all
  the other pools are empty too, \<open>kalloc\<close> returns the null pointer and the state is
  unchanged; there is no panic in \<open>kalloc\<close>.
\<close>

theorem kalloc_steals_round_robin:
  assumes own: "kmem s cpu = 0"
  shows "(\<forall>k. 1 \<le> k \<and> k < NCPU \<and> (\<forall>j. 1 \<le> j \<and> j < k \<longrightarrow> kmem s ((cpu + j) mod NCPU) = 0) \<and>
              kmem s ((cpu + k) mod NCPU) \<noteq> 0 \<longrightarrow>
            (\<exists>s'. kalloc cpu s = (kmem s ((cpu + k) mod NCPU), s') \<and>
               kmem s' ((cpu + k) mod NCPU) = run_next s (kmem s ((cpu + k) mod NCPU)) \<and>
               (\<forall>c. c \<noteq> (cpu + k) mod NCPU \<longrightarrow> kmem s' c = kmem s c) \<and>
               (\<forall>x xs. islist (run_next s) (kmem s ((cpu + k) mod NCPU)) (x # xs) \<and>
                       (\<forall>pa\<in>set (x # xs). pa mod PGSIZE = 0) \<longrightarrow>
                   islist (run_next s') (kmem s' ((cpu + k) mod NCPU)) xs))) \<and>
         ((\<forall>j. 1 \<le> j \<and> j < NCPU \<longrightarrow> kmem s ((cpu + j) mod NCPU) = 0) \<longrightarrow>
            kalloc cpu s = (0, s))"
proof (intro conjI allI impI)
  fix k
  assume k: "1 \<le> k \<and> k < NCPU \<and> (\<forall>j. 1 \<le> j \<and> j < k \<longrightarrow> kmem s ((cpu + j) mod NCPU) = 0) \<and>
              kmem s ((cpu + k) mod NCPU) \<noteq> 0"
  let ?v = "(cpu + k) mod NCPU"
  let ?s' = "snd (pop_page ?v s)"
  have a: "kalloc cpu s = (kmem s ?v, ?s')"
    using kalloc_steal [of s cpu k] own k by (simp add: pop_page_def)
  have b: "kmem ?s' ?v = run_next s (kmem s ?v)" "\<forall>c. c \<noteq> ?v \<longrightarrow> kmem ?s' c = kmem s c"
    by (simp_all add: pop_page_def memset_page_def)
  have c: "\<forall>x xs. islist (run_next s) (kmem s ?v) (x # xs) \<and>
                  (\<forall>pa\<in>set (x # xs). pa mod PGSIZE = 0) \<longrightarrow>
                   islist (run_next ?s') (kmem ?s' ?v) xs"
  proof (intro allI impI)
    fix x xs assume "islist (run_next s) (kmem s ?v) (x # xs) \<and>
                  (\<forall>pa\<in>set (x # xs). pa mod PGSIZE = 0)"
    then have l: "islist (run_next s) (kmem s ?v) (x # xs)" by simp
    then have "x \<notin> set xs" by (rule islist_hd_notin)
    moreover from l have "kmem s ?v = x" "islist (run_next s) (run_next s x) xs" by simp_all
    ultimately show "islist (run_next ?s') (kmem ?s' ?v) xs"
      by (simp add: pop_page_def memset_page_def islist_upd)
  qed
  from a b c show "\<exists>s'. kalloc cpu s = (kmem s ?v, s') \<and>
               kmem s' ?v = run_next s (kmem s ?v) \<and>
               (\<forall>c. c \<noteq> ?v \<longrightarrow> kmem s' c = kmem s c) \<and>
               (\<forall>x xs. islist (run_next s) (kmem s ?v) (x # xs) \<and>
                       (\<forall>pa\<in>set (x # xs). pa mod PGSIZE = 0) \<longrightarrow>
                   islist (run_next s') (kmem s' ?v) xs)"
    by blast
next
  assume "\<forall>j. 1 \<le> j \<and> j < NCPU \<longrightarrow> kmem s ((cpu + j) mod NCPU) = 0"
  with own show "kalloc cpu s = (0, s)" by (rule kalloc_none)
qed

theorem kalloc_steals_round_robin_witness:
  "kmem example_pools 1 = 0 \<and>
   fst (kalloc 1 example_pools) = 0x87fff000 \<and>
   kmem (snd (kalloc 1 example_pools)) 0 = 0x87ffe000 \<and>
   islist (run_next (snd (kalloc 1 example_pools))) (kmem (snd (kalloc 1 example_pools)) 0)
     [0x87ffe000] \<and>
   kmem empty_pools 1 = 0 \<and> kalloc 1 empty_pools = (0, empty_pools)"
proof -
  have own: "kmem example_pools 1 = 0" by (simp add: example_pools_def)
  have v: "(1 + 7) mod NCPU = 0" by (simp add: NCPU_def)
  have h: "1 \<le> (7::nat) \<and> 7 < NCPU \<and>
           (\<forall>j. 1 \<le> j \<and> j < 7 \<longrightarrow> kmem example_pools ((1 + j) mod NCPU) = 0) \<and>
           kmem example_pools ((1 + 7) mod NCPU) \<noteq> 0"
    by (auto simp: example_pools_def NCPU_def)
  have l: "islist (run_next example_pools) (kmem example_pools ((1 + 7) mod NCPU))
             [0x87fff000, 0x87ffe000]"
    by (simp add: example_pools_def NCPU_def)
  from kalloc_steals_round_robin [OF own] h
  obtain s' where s': "kalloc 1 example_pools = (kmem example_pools ((1 + 7) mod NCPU), s')"
      "kmem s' ((1 + 7) mod NCPU) = run_next example_pools (kmem example_pools ((1 + 7) mod NCPU))"
      "\<forall>x xs. islist (run_next example_pools) (kmem example_pools ((1 + 7) mod NCPU)) (x # xs) \<and>
              (\<forall>pa\<in>set (x # xs). pa mod PGSIZE = 0) \<longrightarrow>
          islist (run_next s') (kmem s' ((1 + 7) mod NCPU)) xs"
    by blast
  have al: "\<forall>pa\<in>set [0x87fff000, 0x87ffe000 :: uint64]. pa mod PGSIZE = 0"
    by (simp add: PGSIZE_def)
  from s'(3) l al have l': "islist (run_next s') (kmem s' ((1 + 7) mod NCPU)) [0x87ffe000]"
    by blast
  have own0: "kmem empty_pools 1 = 0" by (simp add: empty_pools_def)
  have "\<forall>j. 1 \<le> j \<and> j < NCPU \<longrightarrow> kmem empty_pools ((1 + j) mod NCPU) = 0"
    by (simp add: empty_pools_def)
  with kalloc_steals_round_robin [OF own0] have e: "kalloc 1 empty_pools = (0, empty_pools)"
    by blast
  from own s'(1,2) l' own0 e show ?thesis
    unfolding v by (simp add: example_pools_def)
qed

section \<open>The invariant of the pools\<close>

text \<open>Two page-aligned addresses less than a page apart are the same.\<close>

lemma aligned_same_page:
  fixes p q :: uint64
  assumes "q mod PGSIZE = 0" "p mod PGSIZE = 0" "q - p < PGSIZE"
  shows "q = p"
proof -
  have a: "(4096::nat) dvd unat q" "(4096::nat) dvd unat p"
    using assms(1,2) by (simp_all add: PGSIZE_def word_unat_eq_iff unat_mod mod_eq_0_iff_dvd)
  have c: "unat (q - p) < 4096"
    using assms(3) by (simp add: PGSIZE_def word_less_nat_alt)
  have s: "unat (q - p) =
      (if unat p \<le> unat q then unat q - unat p else unat q + 2 ^ 64 - unat p)"
    using unat_sub_if_size [of q p] by (simp add: word_size)
  have w: "(4096::nat) dvd 2 ^ 64"
  proof -
    have "(2::nat) ^ 64 = 4096 * 2 ^ 52" by simp
    then show ?thesis by (simp only: dvd_triv_left)
  qed
  have "(4096::nat) dvd unat (q - p)"
  proof (cases "unat p \<le> unat q")
    case True
    with s a show ?thesis by (simp add: dvd_diff_nat)
  next
    case False
    from a(1) w have "(4096::nat) dvd unat q + 2 ^ 64" by (rule dvd_add)
    from this a(2) have "(4096::nat) dvd unat q + 2 ^ 64 - unat p" by (rule dvd_diff_nat)
    with s False show ?thesis by simp
  qed
  with c have "unat (q - p) = 0" by (auto dest: dvd_imp_le)
  then show ?thesis by (simp add: unat_eq_0)
qed

lemma pools_is_free:
  assumes "pools_inv kend phystop s L"
  shows "is_free s pa \<longleftrightarrow> (\<exists>c<NCPU. pa \<in> set (L c))"
proof -
  have "\<And>c. c < NCPU \<Longrightarrow> on_freelist (run_next s) (kmem s c) pa \<longleftrightarrow> pa \<in> set (L c)"
    using assms by (simp add: pools_inv_def islist_on_freelist)
  then show ?thesis by (auto simp: is_free_def)
qed

lemma pools_inv_pop:
  assumes inv: "pools_inv kend phystop s L" and v: "v < NCPU" and h: "kmem s v \<noteq> 0"
  shows "\<exists>xs. L v = kmem s v # xs \<and> pools_inv kend phystop (snd (pop_page v s)) (L(v := xs))"
proof -
  let ?r = "kmem s v"
  let ?s' = "snd (pop_page v s)"
  from inv v have lv: "islist (run_next s) ?r (L v)" by (simp add: pools_inv_def)
  with h obtain xs where xs: "L v = ?r # xs" by (cases "L v") auto
  with lv have tl: "islist (run_next s) (run_next s ?r) xs" by simp
  from inv v xs have rxs: "?r \<notin> set xs" by (auto simp: pools_inv_def)
  have other: "\<And>c. c < NCPU \<Longrightarrow> c \<noteq> v \<Longrightarrow> ?r \<notin> set (L c)"
  proof -
    fix c assume "c < NCPU" "c \<noteq> v"
    with inv v have "set (L v) \<inter> set (L c) = {}" by (simp add: pools_inv_def)
    with xs show "?r \<notin> set (L c)" by auto
  qed
  have s': "run_next ?s' = (run_next s)(?r := 0x0101010101010101 * ucast (5 :: uchar))"
      "kmem ?s' = (kmem s)(v := run_next s ?r)"
    by (simp_all add: pop_page_def memset_page_def)
  let ?L = "L(v := xs)"
  have 1: "\<forall>c<NCPU. islist (run_next ?s') (kmem ?s' c) (?L c)"
  proof (intro allI impI)
    fix c assume c: "c < NCPU"
    show "islist (run_next ?s') (kmem ?s' c) (?L c)"
    proof (cases "c = v")
      case True
      with tl rxs show ?thesis by (simp add: s' islist_upd)
    next
      case False
      with inv c have "islist (run_next s) (kmem s c) (L c)" by (simp add: pools_inv_def)
      with other [OF c False] False show ?thesis by (simp add: s' islist_upd)
    qed
  qed
  have sub: "\<And>c. set (?L c) \<subseteq> set (L c)" using xs by auto
  have 2: "\<forall>c<NCPU. distinct (?L c)"
    using inv xs by (auto simp: pools_inv_def)
  have 3: "\<forall>c<NCPU. \<forall>c'<NCPU. c \<noteq> c' \<longrightarrow> set (?L c) \<inter> set (?L c') = {}"
  proof (intro allI impI)
    fix c c' assume "c < NCPU" "c' < NCPU" "c \<noteq> c'"
    with inv have "set (L c) \<inter> set (L c') = {}" by (simp add: pools_inv_def)
    with sub [of c] sub [of c'] show "set (?L c) \<inter> set (?L c') = {}" by blast
  qed
  have 4: "\<forall>c<NCPU. \<forall>pa\<in>set (?L c). page_ok kend phystop pa"
  proof (intro allI impI ballI)
    fix c pa assume "c < NCPU" "pa \<in> set (?L c)"
    with sub [of c] inv show "page_ok kend phystop pa" by (auto simp: pools_inv_def)
  qed
  from 1 2 3 4 have "pools_inv kend phystop ?s' ?L" by (simp add: pools_inv_def)
  with xs show ?thesis by blast
qed

text \<open>What \<open>kalloc\<close> does to the pools.\<close>

lemma kalloc_pools:
  assumes inv: "pools_inv kend phystop s L" and cpu: "cpu < NCPU"
    and k: "kalloc cpu s = (r, s')"
  shows "(r = 0 \<and> s' = s) \<or>
         (r \<noteq> 0 \<and> (\<exists>v<NCPU. \<exists>xs. L v = r # xs \<and> pools_inv kend phystop s' (L(v := xs))))"
proof -
  from kalloc_cases [OF cpu, of s] show ?thesis
  proof
    assume "kalloc cpu s = (0, s)"
    with k show ?thesis by simp
  next
    assume "\<exists>v<NCPU. kmem s v \<noteq> 0 \<and> kalloc cpu s = pop_page v s"
    then obtain v where v: "v < NCPU" "kmem s v \<noteq> 0" "kalloc cpu s = pop_page v s" by blast
    with k have r: "r = kmem s v" "s' = snd (pop_page v s)" by (auto simp: pop_page_def)
    from pools_inv_pop [OF inv v(1,2)] r v(1,2) show ?thesis by auto
  qed
qed

lemma islist_nonzero: "islist nxt h xs \<Longrightarrow> 0 \<notin> set xs"
  by (induction xs arbitrary: h) auto

lemma kfree_pools:
  assumes inv: "pools_inv kend phystop s L" and cpu: "cpu < NCPU"
    and nf: "\<not> is_free s pa" and k: "kfree kend phystop cpu pa s = Returned s'"
  shows "\<exists>L'. pools_inv kend phystop s' L' \<and> (\<forall>c<NCPU. set (L' c) \<subseteq> insert pa (set (L c)))"
proof -
  from k have ok: "page_ok kend phystop pa"
    by (auto simp: kfree_def page_ok_def split: if_splits)
  from k ok have s': "run_next s' = (run_next s)(pa := kmem s cpu)" "kmem s' = (kmem s)(cpu := pa)"
    by (auto simp: kfree_def page_ok_def memset_page_def Let_def split: if_splits)
  from nf inv have notin: "\<And>c. c < NCPU \<Longrightarrow> pa \<notin> set (L c)"
    by (simp add: pools_is_free)
  have lists: "\<And>c. c < NCPU \<Longrightarrow> islist (run_next s) (kmem s c) (L c)"
    using inv by (simp add: pools_inv_def)
  define L' where "L' = L(cpu := (if pa = 0 then [] else pa # L cpu))"
  have sub: "\<And>c. set (L' c) \<subseteq> insert pa (set (L c))"
    by (auto simp: L'_def)
  have 1: "\<forall>c<NCPU. islist (run_next s') (kmem s' c) (L' c)"
  proof (intro allI impI)
    fix c assume c: "c < NCPU"
    show "islist (run_next s') (kmem s' c) (L' c)"
    proof (cases "c = cpu")
      case True
      with lists [OF cpu] notin [OF cpu] show ?thesis by (simp add: s' L'_def islist_upd)
    next
      case False
      with lists [OF c] notin [OF c] show ?thesis by (simp add: s' L'_def islist_upd)
    qed
  qed
  have 2: "\<forall>c<NCPU. distinct (L' c)"
    using inv notin by (auto simp: pools_inv_def L'_def)
  have 3: "\<forall>c<NCPU. \<forall>c'<NCPU. c \<noteq> c' \<longrightarrow> set (L' c) \<inter> set (L' c') = {}"
  proof (intro allI impI)
    fix c c' assume c: "c < NCPU" "c' < NCPU" "c \<noteq> c'"
    with inv have "set (L c) \<inter> set (L c') = {}" by (simp add: pools_inv_def)
    with notin [OF c(1)] notin [OF c(2)] c(3) show "set (L' c) \<inter> set (L' c') = {}"
      by (auto simp: L'_def)
  qed
  have 4: "\<forall>c<NCPU. \<forall>q\<in>set (L' c). page_ok kend phystop q"
    using inv ok by (auto simp: pools_inv_def L'_def)
  from 1 2 3 4 have "pools_inv kend phystop s' L'" by (simp add: pools_inv_def)
  with sub show ?thesis by blast
qed

lemma kstep_pools:
  assumes inv: "pools_inv kend phystop s L" and st: "kstep kend phystop s a s'"
  shows "\<exists>L'. pools_inv kend phystop s' L' \<and>
           (\<forall>c<NCPU. set (L' c) \<subseteq> set (L c) \<union> {pa. \<exists>c'. a = Kfree c' pa})"
  using st
proof cases
  case (alloc cpu r)
  from kalloc_pools [OF inv alloc(2,3)] show ?thesis
  proof
    assume "r = 0 \<and> s' = s"
    with inv show ?thesis by auto
  next
    assume "r \<noteq> 0 \<and> (\<exists>v<NCPU. \<exists>xs. L v = r # xs \<and> pools_inv kend phystop s' (L(v := xs)))"
    then obtain v xs where v: "L v = r # xs" "pools_inv kend phystop s' (L(v := xs))" by blast
    have "\<forall>c<NCPU. set ((L(v := xs)) c) \<subseteq> set (L c) \<union> {pa. \<exists>c'. a = Kfree c' pa}"
      using v(1) by auto
    with v(2) show ?thesis by blast
  qed
next
  case (free cpu pa)
  from kfree_pools [OF inv free(2,3,4)] free(1) show ?thesis by auto
next
  case (store p b v)
  have notin: "\<And>c. c < NCPU \<Longrightarrow> b \<notin> set (L c)"
  proof
    fix c assume c: "c < NCPU" and b: "b \<in> set (L c)"
    with inv have al: "b mod PGSIZE = 0" by (auto simp: pools_inv_def page_ok_def)
    from store(5) have "b - p < PGSIZE"
      by (rule order_le_less_trans) (simp add: PGSIZE_def)
    with al store(3) have "b = p" by (rule aligned_same_page)
    with b c have "is_free s p" using inv by (auto simp: pools_is_free)
    with store(4) show False by simp
  qed
  have "\<forall>c<NCPU. islist (run_next s') (kmem s' c) (L c)"
  proof (intro allI impI)
    fix c assume c: "c < NCPU"
    with inv have "islist (run_next s) (kmem s c) (L c)" by (simp add: pools_inv_def)
    with notin [OF c] show "islist (run_next s') (kmem s' c) (L c)"
      by (simp add: store(2) islist_upd)
  qed
  with inv have "pools_inv kend phystop s' L" by (simp add: pools_inv_def)
  moreover have "\<forall>c<NCPU. set (L c) \<subseteq> set (L c) \<union> {pa. \<exists>c'. a = Kfree c' pa}" by blast
  ultimately show ?thesis by (intro exI [where x = L] conjI)
qed

lemma ksteps_pools:
  assumes "ksteps kend phystop s ops s'" "pools_inv kend phystop s L"
  shows "\<exists>L'. pools_inv kend phystop s' L' \<and>
           (\<forall>c<NCPU. set (L' c) \<subseteq> (\<Union>c<NCPU. set (L c)) \<union> {pa. \<exists>c'. Kfree c' pa \<in> set ops})"
  using assms
proof (induction rule: ksteps.induct)
  case (nil s)
  then show ?case by auto
next
  case (snoc s ops s' a s'')
  from snoc.IH [OF snoc.prems] obtain L1 where
    L1: "pools_inv kend phystop s' L1"
      "\<forall>c<NCPU. set (L1 c) \<subseteq> (\<Union>c<NCPU. set (L c)) \<union> {pa. \<exists>c'. Kfree c' pa \<in> set ops}"
    by blast
  from kstep_pools [OF L1(1) snoc.hyps(2)] obtain L2 where
    L2: "pools_inv kend phystop s'' L2"
      "\<forall>c<NCPU. set (L2 c) \<subseteq> set (L1 c) \<union> {pa. \<exists>c'. a = Kfree c' pa}"
    by blast
  have "\<forall>c<NCPU. set (L2 c) \<subseteq>
          (\<Union>c<NCPU. set (L c)) \<union> {pa. \<exists>c'. Kfree c' pa \<in> set (ops @ [a])}"
  proof (intro allI impI subsetI)
    fix c x assume c: "c < NCPU" and x: "x \<in> set (L2 c)"
    with L2(2) have "x \<in> set (L1 c) \<or> (\<exists>c'. a = Kfree c' x)" by auto
    then show "x \<in> (\<Union>c<NCPU. set (L c)) \<union> {pa. \<exists>c'. Kfree c' pa \<in> set (ops @ [a])}"
    proof
      assume "x \<in> set (L1 c)"
      moreover from L1(2) c have "set (L1 c) \<subseteq>
          (\<Union>c<NCPU. set (L c)) \<union> {pa. \<exists>c'. Kfree c' pa \<in> set ops}"
        by blast
      ultimately have "x \<in> (\<Union>c<NCPU. set (L c)) \<union> {pa. \<exists>c'. Kfree c' pa \<in> set ops}"
        by blast
      then show ?thesis by auto
    next
      assume "\<exists>c'. a = Kfree c' x"
      then show ?thesis by auto
    qed
  qed
  with L2(1) show ?case by blast
qed

lemma kreach_pools:
  assumes "kreach kend phystop s"
  shows "\<exists>L. pools_inv kend phystop s L"
proof -
  from assms obtain s0 ops where s0: "\<forall>c. kmem s0 c = 0" "ksteps kend phystop s0 ops s"
    by (auto simp: kreach_def)
  from s0(1) have "pools_inv kend phystop s0 (\<lambda>c. [])" by (simp add: pools_inv_def)
  from ksteps_pools [OF s0(2) this] show ?thesis by blast
qed

lemma kreach_kalloc:
  assumes "kreach kend phystop s" "cpu < NCPU" "kalloc cpu s = (r, s')"
  shows "kreach kend phystop s'"
proof -
  from assms(1) obtain s0 ops where s0: "\<forall>c. kmem s0 c = 0" "ksteps kend phystop s0 ops s"
    by (auto simp: kreach_def)
  from assms(2,3) have "kstep kend phystop s (Kalloc cpu) s'" by (rule kstep.alloc)
  with s0(2) have "ksteps kend phystop s0 (ops @ [Kalloc cpu]) s'" by (rule ksteps.snoc)
  with s0(1) show ?thesis by (auto simp: kreach_def)
qed

lemma kfree_Returned:
  "page_ok kend phystop pa \<Longrightarrow>
     kfree kend phystop cpu pa s =
       Returned (s\<lparr>kmem := (kmem s)(cpu := pa), run_next := (run_next s)(pa := kmem s cpu)\<rparr>)"
  by (auto simp: kfree_def page_ok_def memset_page_def Let_def)

lemma example_pools_reach: "kreach 0x80021000 0x88000000 example_pools"
proof -
  let ?K = "0x80021000 :: uint64" and ?P = "0x88000000 :: uint64"
  let ?s1 = "empty_pools\<lparr>kmem := (kmem empty_pools)(0 := 0x87ffe000),
                          run_next := (run_next empty_pools)(0x87ffe000 := kmem empty_pools 0)\<rparr>"
  have ok: "page_ok ?K ?P 0x87ffe000" "page_ok ?K ?P 0x87fff000"
    by (simp_all add: page_ok_def PGSIZE_def)
  have z: "0 < NCPU" by (simp add: NCPU_def)
  have e: "pools_inv ?K ?P empty_pools (\<lambda>c. [])"
    by (simp add: pools_inv_def empty_pools_def)
  then have "\<not> is_free empty_pools 0x87ffe000" by (simp add: pools_is_free)
  with z have 1: "kstep ?K ?P empty_pools (Kfree 0 0x87ffe000) ?s1"
    using kfree_Returned [OF ok(1), of 0 empty_pools] by (auto intro: kstep.free)
  have "pools_inv ?K ?P ?s1 ((\<lambda>c. [])(0 := [0x87ffe000]))"
    using ok(1) by (auto simp: pools_inv_def empty_pools_def)
  then have "\<not> is_free ?s1 0x87fff000" by (simp add: pools_is_free)
  moreover have "kfree ?K ?P 0 0x87fff000 ?s1 = Returned example_pools"
    using kfree_Returned [OF ok(2), of 0 ?s1] by (simp add: example_pools_def empty_pools_def)
  ultimately have 2: "kstep ?K ?P ?s1 (Kfree 0 0x87fff000) example_pools"
    using z by (auto intro: kstep.free)
  have "ksteps ?K ?P empty_pools ([] @ [Kfree 0 0x87ffe000]) ?s1"
    using ksteps.nil 1 by (rule ksteps.snoc)
  then have "ksteps ?K ?P empty_pools (([] @ [Kfree 0 0x87ffe000]) @ [Kfree 0 0x87fff000]) example_pools"
    using 2 by (rule ksteps.snoc)
  moreover have "\<forall>c. kmem empty_pools c = 0" by (simp add: empty_pools_def)
  ultimately show ?thesis unfolding kreach_def by blast
qed

section \<open>Validity of pages\<close>

text \<open>
  C4. \<open>kfree(pa)\<close> panics if and only if \<open>pa\<close> is not page-aligned, or lies below the start
  \<open>end\<close> of the managed range, or at or above its upper bound \<open>PHYSTOP\<close>; for every other
  address it returns. In every reachable state of the allocator, a page that \<open>kalloc\<close>
  returns (a pointer other than null) is page-aligned and lies in the managed range.
\<close>

theorem kfree_panics_iff_invalid:
  "(kfree kend phystop cpu pa s = Panic ''kfree'' \<longleftrightarrow>
      pa mod PGSIZE \<noteq> 0 \<or> pa < kend \<or> phystop \<le> pa) \<and>
   ((\<exists>s1. kfree kend phystop cpu pa s = Returned s1) \<longleftrightarrow>
      pa mod PGSIZE = 0 \<and> kend \<le> pa \<and> pa < phystop) \<and>
   (kreach kend phystop s \<and> cpu < NCPU \<and> kalloc cpu s = (r, s2) \<and> r \<noteq> 0 \<longrightarrow>
      r mod PGSIZE = 0 \<and> kend \<le> r \<and> r < phystop)"
proof (intro conjI)
  show "kfree kend phystop cpu pa s = Panic ''kfree'' \<longleftrightarrow>
      pa mod PGSIZE \<noteq> 0 \<or> pa < kend \<or> phystop \<le> pa"
    by (auto simp: kfree_def Let_def)
  show "(\<exists>s1. kfree kend phystop cpu pa s = Returned s1) \<longleftrightarrow>
      pa mod PGSIZE = 0 \<and> kend \<le> pa \<and> pa < phystop"
    by (auto simp: kfree_def Let_def)
  show "kreach kend phystop s \<and> cpu < NCPU \<and> kalloc cpu s = (r, s2) \<and> r \<noteq> 0 \<longrightarrow>
      r mod PGSIZE = 0 \<and> kend \<le> r \<and> r < phystop"
  proof
    assume a: "kreach kend phystop s \<and> cpu < NCPU \<and> kalloc cpu s = (r, s2) \<and> r \<noteq> 0"
    then obtain L where L: "pools_inv kend phystop s L" by (auto dest: kreach_pools)
    from kalloc_pools [OF L, of cpu r s2] a
    obtain v xs where v: "v < NCPU" "L v = r # xs" by auto
    with L have "page_ok kend phystop r" by (auto simp: pools_inv_def)
    then show "r mod PGSIZE = 0 \<and> kend \<le> r \<and> r < phystop" by (simp add: page_ok_def)
  qed
qed

theorem kfree_panics_iff_invalid_witness:
  "kfree 0x80021000 0x88000000 0 0x87ffe001 empty_pools = Panic ''kfree'' \<and>
   kfree 0x80021000 0x88000000 0 0x80020000 empty_pools = Panic ''kfree'' \<and>
   kfree 0x80021000 0x88000000 0 0x88000000 empty_pools = Panic ''kfree'' \<and>
   (\<exists>s1. kfree 0x80021000 0x88000000 0 0x87ffe000 empty_pools = Returned s1) \<and>
   kreach 0x80021000 0x88000000 example_pools \<and>
   fst (kalloc 1 example_pools) = 0x87fff000 \<and>
   fst (kalloc 1 example_pools) mod PGSIZE = 0 \<and>
   0x80021000 \<le> fst (kalloc 1 example_pools) \<and> fst (kalloc 1 example_pools) < 0x88000000"
proof -
  let ?K = "0x80021000 :: uint64" and ?P = "0x88000000 :: uint64"
  have 1: "kfree ?K ?P 0 0x87ffe001 empty_pools = Panic ''kfree''"
    using kfree_panics_iff_invalid [of ?K ?P 0 "0x87ffe001" empty_pools]
    by (simp add: PGSIZE_def)
  have 2: "kfree ?K ?P 0 0x80020000 empty_pools = Panic ''kfree''"
    using kfree_panics_iff_invalid [of ?K ?P 0 "0x80020000" empty_pools]
    by (simp add: PGSIZE_def)
  have 3: "kfree ?K ?P 0 0x88000000 empty_pools = Panic ''kfree''"
    using kfree_panics_iff_invalid [of ?K ?P 0 "0x88000000" empty_pools]
    by (simp add: PGSIZE_def)
  have 4: "\<exists>s1. kfree ?K ?P 0 0x87ffe000 empty_pools = Returned s1"
    using kfree_panics_iff_invalid [of ?K ?P 0 "0x87ffe000" empty_pools]
    by (simp add: PGSIZE_def)
  have own: "kmem example_pools 1 = 0" by (simp add: example_pools_def)
  have "kalloc 1 example_pools = pop_page ((1 + 7) mod NCPU) example_pools"
    by (rule kalloc_steal) (auto simp: example_pools_def NCPU_def)
  then have r: "fst (kalloc 1 example_pools) = 0x87fff000"
    by (simp add: pop_page_def example_pools_def NCPU_def)
  have c: "(1::nat) < NCPU" by (simp add: NCPU_def)
  from kfree_panics_iff_invalid [of ?K ?P 1 _ example_pools "fst (kalloc 1 example_pools)"
      "snd (kalloc 1 example_pools)"] example_pools_reach c r
  have "fst (kalloc 1 example_pools) mod PGSIZE = 0 \<and>
   0x80021000 \<le> fst (kalloc 1 example_pools) \<and> fst (kalloc 1 example_pools) < 0x88000000"
    by simp
  with 1 2 3 4 example_pools_reach r show ?thesis by simp
qed

section \<open>Conservation of pages\<close>

text \<open>
  C5. In every reachable state of the allocator the pools are null-terminated lists in which
  no page occurs twice, and no page is on two pools. Hence a page that \<open>kalloc\<close> has returned
  is returned by no later \<open>kalloc\<close>, on any processor, as long as no \<open>kfree\<close> of that page
  comes in between. (Reachable: from empty pools, by calls of \<open>kalloc\<close>, by calls of
  \<open>kfree\<close> on pages that are not free at the time of the call, and by stores into pages
  that are not free.)
\<close>

theorem kalloc_conservation:
  assumes "kreach kend phystop s"
  shows "(\<exists>L. (\<forall>c<NCPU. islist (run_next s) (kmem s c) (L c) \<and> distinct (L c)) \<and>
              (\<forall>c<NCPU. \<forall>c'<NCPU. c \<noteq> c' \<longrightarrow> set (L c) \<inter> set (L c') = {})) \<and>
         (\<forall>cpu r s1 ops s2 cpu2 r2 s3.
            cpu < NCPU \<and> kalloc cpu s = (r, s1) \<and> r \<noteq> 0 \<and>
            ksteps kend phystop s1 ops s2 \<and> (\<forall>c. Kfree c r \<notin> set ops) \<and>
            cpu2 < NCPU \<and> kalloc cpu2 s2 = (r2, s3) \<longrightarrow> r2 \<noteq> r)"
proof -
  from assms obtain L where L: "pools_inv kend phystop s L" by (auto dest: kreach_pools)
  have "(\<forall>c<NCPU. islist (run_next s) (kmem s c) (L c) \<and> distinct (L c)) \<and>
        (\<forall>c<NCPU. \<forall>c'<NCPU. c \<noteq> c' \<longrightarrow> set (L c) \<inter> set (L c') = {})"
    using L by (simp add: pools_inv_def)
  then have first: "\<exists>L. (\<forall>c<NCPU. islist (run_next s) (kmem s c) (L c) \<and> distinct (L c)) \<and>
              (\<forall>c<NCPU. \<forall>c'<NCPU. c \<noteq> c' \<longrightarrow> set (L c) \<inter> set (L c') = {})"
    by (rule exI [where x = L])
  have second: "r2 \<noteq> r"
    if h: "cpu < NCPU \<and> kalloc cpu s = (r, s1) \<and> r \<noteq> 0 \<and>
            ksteps kend phystop s1 ops s2 \<and> (\<forall>c. Kfree c r \<notin> set ops) \<and>
            cpu2 < NCPU \<and> kalloc cpu2 s2 = (r2, s3)"
    for cpu r s1 ops s2 cpu2 r2 s3
  proof -
    from kalloc_pools [OF L, of cpu r s1] h
    obtain v xs where v: "v < NCPU" "L v = r # xs" "pools_inv kend phystop s1 (L(v := xs))"
      by auto
    have out1: "\<And>c. c < NCPU \<Longrightarrow> r \<notin> set ((L(v := xs)) c)"
    proof -
      fix c assume c: "c < NCPU"
      show "r \<notin> set ((L(v := xs)) c)"
      proof (cases "c = v")
        case True
        from L v(1) have "distinct (L v)" by (simp add: pools_inv_def)
        with v(2) True show ?thesis by simp
      next
        case False
        with L c v(1) have "set (L v) \<inter> set (L c) = {}" by (simp add: pools_inv_def)
        with v(2) False show ?thesis by auto
      qed
    qed
    from h have st: "ksteps kend phystop s1 ops s2" by simp
    from ksteps_pools [OF st v(3)] obtain L2 where
      L2: "pools_inv kend phystop s2 L2"
        "\<forall>c<NCPU. set (L2 c) \<subseteq>
           (\<Union>c<NCPU. set ((L(v := xs)) c)) \<union> {pa. \<exists>c'. Kfree c' pa \<in> set ops}"
      by blast
    have out2: "\<And>c. c < NCPU \<Longrightarrow> r \<notin> set (L2 c)"
    proof
      fix c assume c: "c < NCPU" and "r \<in> set (L2 c)"
      with L2(2) have "r \<in> (\<Union>c<NCPU. set ((L(v := xs)) c)) \<union> {pa. \<exists>c'. Kfree c' pa \<in> set ops}"
        by blast
      with h have "r \<in> (\<Union>c<NCPU. set ((L(v := xs)) c))" by blast
      then obtain c' where "c' < NCPU" "r \<in> set ((L(v := xs)) c')" by blast
      with out1 show False by blast
    qed
    from h have k2: "cpu2 < NCPU" "kalloc cpu2 s2 = (r2, s3)" by simp_all
    from kalloc_pools [OF L2(1) k2] show "r2 \<noteq> r"
    proof
      assume "r2 = 0 \<and> s3 = s2"
      with h show ?thesis by auto
    next
      assume "r2 \<noteq> 0 \<and> (\<exists>v<NCPU. \<exists>xs. L2 v = r2 # xs \<and> pools_inv kend phystop s3 (L2(v := xs)))"
      then obtain v2 ys where "v2 < NCPU" "L2 v2 = r2 # ys" by blast
      with out2 [of v2] show ?thesis by auto
    qed
  qed
  show ?thesis
  proof (rule conjI [OF first], intro allI impI)
    fix cpu r s1 ops s2 cpu2 r2 s3
    assume "cpu < NCPU \<and> kalloc cpu s = (r, s1) \<and> r \<noteq> 0 \<and>
            ksteps kend phystop s1 ops s2 \<and> (\<forall>c. Kfree c r \<notin> set ops) \<and>
            cpu2 < NCPU \<and> kalloc cpu2 s2 = (r2, s3)"
    then show "r2 \<noteq> r" by (rule second)
  qed
qed

theorem kalloc_conservation_witness:
  "kreach 0x80021000 0x88000000 example_pools \<and>
   fst (kalloc 1 example_pools) = 0x87fff000 \<and>
   fst (kalloc 0 (snd (kalloc 1 example_pools))) \<noteq> 0x87fff000"
proof -
  let ?K = "0x80021000 :: uint64" and ?P = "0x88000000 :: uint64"
  have "kalloc 1 example_pools = pop_page ((1 + 7) mod NCPU) example_pools"
    by (rule kalloc_steal) (auto simp: example_pools_def NCPU_def)
  then have r: "fst (kalloc 1 example_pools) = 0x87fff000"
    by (simp add: pop_page_def example_pools_def NCPU_def)
  have c: "(1::nat) < NCPU" "(0::nat) < NCPU" by (simp_all add: NCPU_def)
  have n: "ksteps ?K ?P (snd (kalloc 1 example_pools)) [] (snd (kalloc 1 example_pools))"
    by (rule ksteps.nil)
  from kalloc_conservation [OF example_pools_reach]
  have "\<forall>cpu r s1 ops s2 cpu2 r2 s3.
            cpu < NCPU \<and> kalloc cpu example_pools = (r, s1) \<and> r \<noteq> 0 \<and>
            ksteps ?K ?P s1 ops s2 \<and> (\<forall>c. Kfree c r \<notin> set ops) \<and>
            cpu2 < NCPU \<and> kalloc cpu2 s2 = (r2, s3) \<longrightarrow> r2 \<noteq> r"
    by blast
  from this [rule_format, of 1 "fst (kalloc 1 example_pools)" "snd (kalloc 1 example_pools)"
      "[]" "snd (kalloc 1 example_pools)" 0
      "fst (kalloc 0 (snd (kalloc 1 example_pools)))"
      "snd (kalloc 0 (snd (kalloc 1 example_pools)))"] c n r
  have "fst (kalloc 0 (snd (kalloc 1 example_pools))) \<noteq> fst (kalloc 1 example_pools)"
    by simp
  with example_pools_reach r show ?thesis by simp
qed

end
